theory Spec2Isabelle
  imports Main "HOL-Library.AList"
begin

section \<open>The graph store (storage.py, class FurryNetworkDB)\<close>

text \<open>
  Account identifiers (DIDs) and handles are Python strings. A nullable TEXT column or an
  optional string argument is a \<open>string option\<close>, with \<open>None\<close> for Python's None and
  SQL's NULL. The two count columns are INTEGER and the arguments of \<open>add_user\<close> default to
  the integer 0, so counts are integers; a count that is None or NULL, which the comparisons
  of \<open>add_user\<close> cannot order, is outside the model. The BOOLEAN columns hold 0 or 1 and
  are booleans. The column \<open>added_at\<close> (a wall-clock default) is left out.
\<close>

type_synonym did = string

record user_row =
  handle :: string
  display_name :: "string option"
  followers_count :: int
  follows_count :: int
  description :: "string option"
  crawled :: bool
  is_mutual_core :: bool

record follow_row =
  follower_handle :: string
  following_handle :: string
  is_mutual :: bool

text \<open>
  A table is the list of its rows in rowid order, each row with its primary key in front:
  \<open>did\<close> for users, the pair (follower_did, following_did) for follows.
\<close>

record store =
  users :: "(did \<times> user_row) list"
  follows :: "((did \<times> did) \<times> follow_row) list"

definition empty_store :: store where
  "empty_store = \<lparr>users = [], follows = []\<rparr>"

text \<open>\<open>SELECT ... FROM users WHERE did = ?\<close> followed by \<open>fetchone()\<close>.\<close>

definition select_user :: "did \<Rightarrow> store \<Rightarrow> user_row option" where
  "select_user d s = map_of (users s) d"

definition select_follow :: "did \<Rightarrow> did \<Rightarrow> store \<Rightarrow> follow_row option" where
  "select_follow u v s = map_of (follows s) (u, v)"

text \<open>
  \<open>add_user\<close>: reads the existing row, keeps the stored flags, keeps a stored count when the
  incoming one is 0 and the stored one is positive, keeps a stored description or display
  name when the incoming one is None, and then runs INSERT OR REPLACE: the row with this
  key is deleted and the new row is inserted at the end of the table.
\<close>

definition add_user ::
  "did \<Rightarrow> string \<Rightarrow> string option \<Rightarrow> int \<Rightarrow> int \<Rightarrow> string option \<Rightarrow> store \<Rightarrow> store" where
  "add_user d h dn fc gc desc s =
     (let new_row =
        (case select_user d s of
           None \<Rightarrow>
             \<lparr>handle = h, display_name = dn, followers_count = fc, follows_count = gc,
              description = desc, crawled = False, is_mutual_core = False\<rparr>
         | Some existing \<Rightarrow>
             \<lparr>handle = h,
              display_name =
                (if dn = None \<and> display_name existing \<noteq> None
                 then display_name existing else dn),
              followers_count =
                (if fc = 0 \<and> followers_count existing > 0
                 then followers_count existing else fc),
              follows_count =
                (if gc = 0 \<and> follows_count existing > 0
                 then follows_count existing else gc),
              description =
                (if desc = None \<and> description existing \<noteq> None
                 then description existing else desc),
              crawled = crawled existing,
              is_mutual_core = is_mutual_core existing\<rparr>)
      in s\<lparr>users := filter (\<lambda>r. fst r \<noteq> d) (users s) @ [(d, new_row)]\<rparr>)"

text \<open>\<open>add_follow\<close>: INSERT OR IGNORE on the primary key (follower_did, following_did).\<close>

definition add_follow :: "did \<Rightarrow> string \<Rightarrow> did \<Rightarrow> string \<Rightarrow> bool \<Rightarrow> store \<Rightarrow> store" where
  "add_follow u uh v vh m s =
     (if (u, v) \<in> fst ` set (follows s) then s
      else s\<lparr>follows := follows s @
             [((u, v), \<lparr>follower_handle = uh, following_handle = vh, is_mutual = m\<rparr>)]\<rparr>)"

text \<open>\<open>UPDATE users SET crawled = 1 WHERE did = ?\<close> and its twin for is_mutual_core.\<close>

definition mark_as_crawled :: "did \<Rightarrow> store \<Rightarrow> store" where
  "mark_as_crawled d s =
     s\<lparr>users := map (\<lambda>(k, r). if k = d then (k, r\<lparr>crawled := True\<rparr>) else (k, r)) (users s)\<rparr>"

definition mark_as_mutual_core :: "did \<Rightarrow> store \<Rightarrow> store" where
  "mark_as_mutual_core d s =
     s\<lparr>users :=
         map (\<lambda>(k, r). if k = d then (k, r\<lparr>is_mutual_core := True\<rparr>) else (k, r)) (users s)\<rparr>"

text \<open>
  \<open>is_crawled\<close> returns \<open>result and result[0] == 1\<close>: Python's None when there is no row
  (here \<open>None\<close>), otherwise the boolean. \<open>truthy\<close> is the truth value a Python \<open>if\<close> gives
  to that result.
\<close>

definition is_crawled :: "did \<Rightarrow> store \<Rightarrow> bool option" where
  "is_crawled d s = (case select_user d s of None \<Rightarrow> None | Some r \<Rightarrow> Some (crawled r))"

definition truthy :: "bool option \<Rightarrow> bool" where
  "truthy r = (r = Some True)"

definition user_exists :: "did \<Rightarrow> store \<Rightarrow> bool" where
  "user_exists d s = (select_user d s \<noteq> None)"

text \<open>\<open>SELECT did, handle FROM users WHERE crawled = 0\<close> (called without a limit).\<close>

definition get_uncrawled_users :: "store \<Rightarrow> (did \<times> string) list" where
  "get_uncrawled_users s =
     map (\<lambda>(k, r). (k, handle r)) (filter (\<lambda>(k, r). \<not> crawled r) (users s))"

text \<open>The join condition of the counting query: some users row of \<open>d\<close> has is_mutual_core = 1.\<close>

definition core_row :: "store \<Rightarrow> did \<Rightarrow> bool" where
  "core_row s d = (d \<in> fst ` set (filter (\<lambda>kr. is_mutual_core (snd kr)) (users s)))"

text \<open>
  \<open>get_mutual_core_connection_count\<close>: COUNT(DISTINCT connected_did) over the UNION of the
  core followers of \<open>d\<close> and the core accounts \<open>d\<close> follows.
\<close>

definition get_mutual_core_connection_count :: "did \<Rightarrow> store \<Rightarrow> nat" where
  "get_mutual_core_connection_count d s =
     length (remdups
       (map (\<lambda>e. fst (fst e))
          (filter (\<lambda>e. snd (fst e) = d \<and> core_row s (fst (fst e))) (follows s)) @
        map (\<lambda>e. snd (fst e))
          (filter (\<lambda>e. fst (fst e) = d \<and> core_row s (snd (fst e))) (follows s))))"

text \<open>
  The count in the words of the specification: the distinct accounts flagged core member
  that are linked to \<open>d\<close> by a follow edge in either direction.
\<close>

definition spec_core_connections :: "did \<Rightarrow> store \<Rightarrow> did set" where
  "spec_core_connections d s =
     {a. core_row s a \<and> ((a, d) \<in> fst ` set (follows s) \<or> (d, a) \<in> fst ` set (follows s))}"

section \<open>The remote directory client (bluesky_api.py, class BlueskyAPI)\<close>

text \<open>
  The profile returned by the remote profile endpoint, and the profile view of an account
  as it appears in a follows or followers page.
\<close>

record profile =
  p_did :: did
  p_handle :: string
  p_display_name :: "string option"
  p_followers_count :: int
  p_follows_count :: int
  p_description :: "string option"

record actor =
  a_did :: did
  a_handle :: string
  a_display_name :: "string option"

text \<open>
  One call of a paginated endpoint either raises (\<open>PageError\<close>) or answers with the
  accounts of the page and the cursor of the next one.
\<close>

datatype page = Page "actor list" "string option" | PageError

text \<open>
  The remote service behind \<open>self.client\<close>: the profile endpoint (\<open>None\<close> when the call
  raises) and the two paginated endpoints, called with the actor and the cursor parameter
  (\<open>None\<close> when the request carries no cursor).
\<close>

record client =
  actor_get_profile :: "did \<Rightarrow> profile option"
  graph_get_follows :: "did \<Rightarrow> string option \<Rightarrow> page"
  graph_get_followers :: "did \<Rightarrow> string option \<Rightarrow> page"

text \<open>\<open>get_profile\<close>: the exception is caught and None is returned.\<close>

definition get_profile :: "client \<Rightarrow> did \<Rightarrow> profile option" where
  "get_profile c a = actor_get_profile c a"

text \<open>Python's truth value of a cursor: None and the empty string end the pagination.\<close>

definition cursor_set :: "string option \<Rightarrow> bool" where
  "cursor_set cur = (cur \<noteq> None \<and> cur \<noteq> Some [])"

text \<open>
  The \<open>while True\<close> loop shared by \<open>get_all_follows\<close> and \<open>get_all_followers\<close>: extend the
  list with each page, stop when the answer has no cursor, and on an exception stop and
  return what has been collected so far. The loop does not return when the remote service
  never stops handing out cursors; the result is then \<open>None\<close>.
\<close>

partial_function (option) fetch_pages ::
  "(string option \<Rightarrow> page) \<Rightarrow> string option \<Rightarrow> actor list \<Rightarrow> actor list option" where
  "fetch_pages endpoint cursor acc =
     (case endpoint cursor of
        PageError \<Rightarrow> Some acc
      | Page items cur \<Rightarrow>
          if cursor_set cur then fetch_pages endpoint cur (acc @ items)
          else Some (acc @ items))"

declare fetch_pages.simps [code]

definition get_all_follows :: "client \<Rightarrow> did \<Rightarrow> actor list option" where
  "get_all_follows c a = fetch_pages (graph_get_follows c a) None []"

definition get_all_followers :: "client \<Rightarrow> did \<Rightarrow> actor list option" where
  "get_all_followers c a = fetch_pages (graph_get_followers c a) None []"

text \<open>
  The dictionary returned by \<open>find_mutuals\<close>. \<open>mutuals\<close> is a Python set, iterated by the
  crawler in an unspecified order; here it is listed in the order of first occurrence in
  the follows list.
\<close>

record mutuals_result =
  r_follows :: "actor list"
  r_followers :: "actor list"
  r_mutuals :: "did list"

definition find_mutuals :: "client \<Rightarrow> did \<Rightarrow> mutuals_result option" where
  "find_mutuals c a =
     (case get_all_follows c a of
        None \<Rightarrow> None
      | Some fs \<Rightarrow>
          (case get_all_followers c a of
             None \<Rightarrow> None
           | Some gs \<Rightarrow>
               Some \<lparr>r_follows = fs, r_followers = gs,
                     r_mutuals =
                       remdups (filter (\<lambda>d. d \<in> set (map a_did gs)) (map a_did fs))\<rparr>))"

section \<open>The traversal engine (main.py)\<close>

text \<open>
  The history of a run, kept beside the program variables: every append to the frontier
  and every call of \<open>mark_as_crawled\<close>, in the order they happen. \<open>Enqueued d s\<close> is an
  append decided by Phase 2 on the store \<open>s\<close>, \<open>EnqueuedMutual cur d\<close> an append made by
  Phase 1 while it crawls \<open>cur\<close>.
\<close>

datatype event = Enqueued did store | EnqueuedMutual did did | Crawled did

text \<open>The variables of the Phase 1 loop; Phase 2 adds its counter.\<close>

record crawl_state =
  to_process :: "did list"
  processed :: "did set"
  db :: store
  events :: "event list"

record p2_state = crawl_state +
  crawled_count :: nat

text \<open>
  \<open>if max_users and len(done) >= max_users: break\<close>: None and 0 are both false for
  Python, so neither sets a limit.
\<close>

definition limit_reached :: "int option \<Rightarrow> nat \<Rightarrow> bool" where
  "limit_reached max_users n =
     (case max_users of None \<Rightarrow> False | Some m \<Rightarrow> m \<noteq> 0 \<and> int n \<ge> m)"

subsection \<open>Phase 1\<close>

text \<open>The loop over \<open>result['follows']\<close>: upsert the account, then record current \<rightarrow> them.\<close>

definition p1_add_follows :: "did \<Rightarrow> string \<Rightarrow> did list \<Rightarrow> actor list \<Rightarrow> store \<Rightarrow> store" where
  "p1_add_follows cur cur_handle mutuals fs s =
     fold (\<lambda>f s'. add_follow cur cur_handle (a_did f) (a_handle f) (a_did f \<in> set mutuals)
                    (add_user (a_did f) (a_handle f) (a_display_name f) 0 0 None s'))
          fs s"

text \<open>
  The loop over \<open>result['followers']\<close>: upsert the account, and record them \<rightarrow> current
  unless the account is also in the follows list.
\<close>

definition p1_add_followers :: "did \<Rightarrow> string \<Rightarrow> did set \<Rightarrow> actor list \<Rightarrow> store \<Rightarrow> store" where
  "p1_add_followers cur cur_handle follows_dids gs s =
     fold (\<lambda>g s'. let s'' = add_user (a_did g) (a_handle g) (a_display_name g) 0 0 None s'
                   in if a_did g \<notin> follows_dids
                      then add_follow (a_did g) (a_handle g) cur cur_handle False s''
                      else s'')
          gs s"

text \<open>The loop over \<open>result['mutuals']\<close>: the mutuals that are appended to the queue.\<close>

definition p1_new_mutuals :: "did set \<Rightarrow> store \<Rightarrow> did list \<Rightarrow> did list" where
  "p1_new_mutuals done s mutuals =
     filter (\<lambda>m. m \<notin> done \<and> \<not> truthy (is_crawled m s)) mutuals"

text \<open>
  One pass through the body of the \<open>while\<close> loop, entered with a non-empty queue and the
  limit not reached. The result is \<open>None\<close> when a paginated fetch does not return.
\<close>

definition phase1_body :: "client \<Rightarrow> crawl_state \<Rightarrow> crawl_state option" where
  "phase1_body c st =
     (case to_process st of
        [] \<Rightarrow> Some st
      | cur # queue \<Rightarrow>
          if cur \<in> processed st \<or> truthy (is_crawled cur (db st))
          then Some (st\<lparr>to_process := queue\<rparr>)
          else
            (case get_profile c cur of
               None \<Rightarrow> Some (st\<lparr>to_process := queue\<rparr>)
             | Some prof \<Rightarrow>
                 (let s1 = add_user (p_did prof) (p_handle prof) (p_display_name prof)
                             (p_followers_count prof) (p_follows_count prof)
                             (p_description prof) (db st)
                  in case find_mutuals c cur of
                       None \<Rightarrow> None
                     | Some res \<Rightarrow>
                         (let s2 = p1_add_follows cur (p_handle prof) (r_mutuals res)
                                     (r_follows res) s1;
                              s3 = p1_add_followers cur (p_handle prof)
                                     (set (map a_did (r_follows res))) (r_followers res) s2;
                              new = p1_new_mutuals (processed st) s3 (r_mutuals res)
                          in Some \<lparr>to_process = queue @ new,
                                   processed = insert cur (processed st),
                                   db = mark_as_mutual_core cur (mark_as_crawled cur s3),
                                   events = events st @ map (EnqueuedMutual cur) new
                                              @ [Crawled cur]\<rparr>))))"

definition phase1_exit :: "int option \<Rightarrow> crawl_state \<Rightarrow> bool" where
  "phase1_exit max_users st =
     (to_process st = [] \<or> limit_reached max_users (card (processed st)))"

text \<open>The state after at most \<open>n\<close> passes of the \<open>while\<close> loop (fewer when the loop exits).\<close>

fun phase1_loop :: "nat \<Rightarrow> client \<Rightarrow> int option \<Rightarrow> crawl_state \<Rightarrow> crawl_state option" where
  "phase1_loop 0 c max_users st = Some st"
| "phase1_loop (Suc n) c max_users st =
     (if phase1_exit max_users st then Some st
      else case phase1_body c st of
             None \<Rightarrow> None
           | Some st' \<Rightarrow> phase1_loop n c max_users st')"

definition phase1_init :: "store \<Rightarrow> did \<Rightarrow> crawl_state" where
  "phase1_init s seed_account =
     \<lparr>to_process = [seed_account], processed = {}, db = s, events = []\<rparr>"

definition phase1_mutuals_graph ::
  "nat \<Rightarrow> client \<Rightarrow> store \<Rightarrow> did \<Rightarrow> int option \<Rightarrow> crawl_state option" where
  "phase1_mutuals_graph n c s seed_account max_users =
     phase1_loop n c max_users (phase1_init s seed_account)"

subsection \<open>Phase 2\<close>

text \<open>
  The initial queue: the uncrawled accounts of the store whose count of connections to the
  mutual core reaches \<open>min_connections\<close>, in the order of the table.
\<close>

definition p2_initial_queue :: "int \<Rightarrow> store \<Rightarrow> did list" where
  "p2_initial_queue min_connections s =
     filter (\<lambda>d. int (get_mutual_core_connection_count d s) \<ge> min_connections)
            (map fst (get_uncrawled_users s))"

definition phase2_init :: "int \<Rightarrow> store \<Rightarrow> p2_state" where
  "phase2_init min_connections s =
     \<lparr>to_process = p2_initial_queue min_connections s, processed = {}, db = s,
      events = map (\<lambda>d. Enqueued d s) (p2_initial_queue min_connections s),
      crawled_count = 0\<rparr>"

text \<open>
  The loops over the follows and over the followers: a stub is added for an account the
  store does not know, and the edge is recorded with is_mutual = False.
\<close>

definition p2_add_follows :: "did \<Rightarrow> string \<Rightarrow> actor list \<Rightarrow> store \<Rightarrow> store" where
  "p2_add_follows cur cur_handle fs s =
     fold (\<lambda>f s'. add_follow cur cur_handle (a_did f) (a_handle f) False
                    (if \<not> user_exists (a_did f) s'
                     then add_user (a_did f) (a_handle f) (a_display_name f) 0 0 None s'
                     else s'))
          fs s"

definition p2_add_followers :: "did \<Rightarrow> string \<Rightarrow> actor list \<Rightarrow> store \<Rightarrow> store" where
  "p2_add_followers cur cur_handle gs s =
     fold (\<lambda>g s'. add_follow (a_did g) (a_handle g) cur cur_handle False
                    (if \<not> user_exists (a_did g) s'
                     then add_user (a_did g) (a_handle g) (a_display_name g) 0 0 None s'
                     else s'))
          gs s"

text \<open>
  \<open>temp_connections\<close>: a dictionary from did to handle, filled from the follows and then
  from the followers; a dictionary keeps the position of a key that is assigned again.
\<close>

definition temp_connections :: "actor list \<Rightarrow> actor list \<Rightarrow> (did \<times> string) list" where
  "temp_connections fs gs = fold (\<lambda>f m. AList.update (a_did f) (a_handle f) m) (fs @ gs) []"

text \<open>
  One pass of the scan over \<open>temp_connections\<close>, on the queue and the history: the
  connection is appended when it is not processed, not in the queue, not crawled, and its
  count on the store reaches \<open>min_connections\<close>.
\<close>

definition p2_consider ::
  "int \<Rightarrow> did set \<Rightarrow> store \<Rightarrow> did \<Rightarrow> did list \<times> event list \<Rightarrow> did list \<times> event list" where
  "p2_consider min_connections done s d qe =
     (if d \<in> done then qe
      else if d \<in> set (fst qe) then qe
      else if truthy (is_crawled d s) then qe
      else if int (get_mutual_core_connection_count d s) \<ge> min_connections
           then (fst qe @ [d], snd qe @ [Enqueued d s])
           else qe)"

definition p2_scan ::
  "int \<Rightarrow> did set \<Rightarrow> store \<Rightarrow> did list \<Rightarrow> did list \<times> event list \<Rightarrow> did list \<times> event list" where
  "p2_scan min_connections done s conns qe = fold (p2_consider min_connections done s) conns qe"

text \<open>
  One pass through the body of the Phase 2 \<open>while\<close> loop, entered with a non-empty queue
  and the limit not reached.
\<close>

definition phase2_body :: "client \<Rightarrow> int \<Rightarrow> p2_state \<Rightarrow> p2_state option" where
  "phase2_body c min_connections st =
     (case to_process st of
        [] \<Rightarrow> Some st
      | cur # queue \<Rightarrow>
          if cur \<in> processed st \<or> truthy (is_crawled cur (db st))
          then Some (st\<lparr>to_process := queue\<rparr>)
          else
            (case get_profile c cur of
               None \<Rightarrow> Some (st\<lparr>to_process := queue, processed := insert cur (processed st)\<rparr>)
             | Some prof \<Rightarrow>
                 (let s1 = add_user (p_did prof) (p_handle prof) (p_display_name prof)
                             (p_followers_count prof) (p_follows_count prof)
                             (p_description prof) (db st)
                  in case get_all_follows c cur of
                       None \<Rightarrow> None
                     | Some fs \<Rightarrow>
                         (case get_all_followers c cur of
                            None \<Rightarrow> None
                          | Some gs \<Rightarrow>
                              (let s2 = p2_add_follows cur (p_handle prof) fs s1;
                                   s3 = p2_add_followers cur (p_handle prof) gs s2;
                                   qe = p2_scan min_connections (processed st) s3
                                          (map fst (temp_connections fs gs))
                                          (queue, events st)
                               in Some \<lparr>to_process = fst qe,
                                        processed = insert cur (processed st),
                                        db = mark_as_crawled cur s3,
                                        events = snd qe @ [Crawled cur],
                                        crawled_count = Suc (crawled_count st)\<rparr>)))))"

definition phase2_exit :: "int option \<Rightarrow> p2_state \<Rightarrow> bool" where
  "phase2_exit max_users st =
     (to_process st = [] \<or> limit_reached max_users (crawled_count st))"

fun phase2_loop :: "nat \<Rightarrow> client \<Rightarrow> int \<Rightarrow> int option \<Rightarrow> p2_state \<Rightarrow> p2_state option" where
  "phase2_loop 0 c min_connections max_users st = Some st"
| "phase2_loop (Suc n) c min_connections max_users st =
     (if phase2_exit max_users st then Some st
      else case phase2_body c min_connections st of
             None \<Rightarrow> None
           | Some st' \<Rightarrow> phase2_loop n c min_connections max_users st')"

definition phase2_expand_graph ::
  "nat \<Rightarrow> client \<Rightarrow> store \<Rightarrow> int \<Rightarrow> int option \<Rightarrow> p2_state option" where
  "phase2_expand_graph n c s min_connections max_users =
     phase2_loop n c min_connections max_users (phase2_init min_connections s)"

text \<open>The accounts whose crawled flag is set in the store.\<close>

definition crawled_dids :: "store \<Rightarrow> did set" where
  "crawled_dids s = fst ` set (filter (\<lambda>kr. crawled (snd kr)) (users s))"

section \<open>Auxiliary definitions for the proofs\<close>

text \<open>
  The invariant of the Phase 1 loop behind claim C2: an identifier in the queue is the seed
  or was appended as a mutual, and every append recorded in the history was made while
  crawling an account in whose mutual intersection the appended identifier lies.
\<close>

definition p1_inv :: "client \<Rightarrow> did \<Rightarrow> crawl_state \<Rightarrow> bool" where
  "p1_inv c seed st \<longleftrightarrow>
     (\<forall>x \<in> set (to_process st). x = seed \<or> (\<exists>cur. EnqueuedMutual cur x \<in> set (events st)))
     \<and> (\<forall>cur x. EnqueuedMutual cur x \<in> set (events st) \<longrightarrow>
           Crawled cur \<in> set (events st)
           \<and> (\<exists>res. find_mutuals c cur = Some res
                 \<and> x \<in> set (map a_did (r_follows res)) \<inter> set (map a_did (r_followers res))))"

text \<open>
  The remote service of the end-to-end scenario: the seed S follows A and B and is followed
  by A and C; every other request raises.
\<close>

definition scenario_client :: client where
  "scenario_client =
     \<lparr>actor_get_profile = (\<lambda>a. if a = ''S'' then
          Some \<lparr>p_did = ''S'', p_handle = ''s.test'', p_display_name = Some ''Seed'',
                p_followers_count = 2, p_follows_count = 2, p_description = None\<rparr>
          else None),
      graph_get_follows = (\<lambda>a cur. if a = ''S'' then
          Page [\<lparr>a_did = ''A'', a_handle = ''a.test'', a_display_name = None\<rparr>,
                \<lparr>a_did = ''B'', a_handle = ''b.test'', a_display_name = None\<rparr>] None
          else PageError),
      graph_get_followers = (\<lambda>a cur. if a = ''S'' then
          Page [\<lparr>a_did = ''A'', a_handle = ''a.test'', a_display_name = None\<rparr>,
                \<lparr>a_did = ''C'', a_handle = ''c.test'', a_display_name = None\<rparr>] None
          else PageError)\<rparr>"

text \<open>
  A remote service that answers the profile request for S and raises on every follows
  request; S has the one follower A.
\<close>

definition follows_error_client :: client where
  "follows_error_client =
     \<lparr>actor_get_profile = (\<lambda>a. if a = ''S'' then
          Some \<lparr>p_did = ''S'', p_handle = ''s.test'', p_display_name = None,
                p_followers_count = 1, p_follows_count = 1, p_description = None\<rparr>
          else None),
      graph_get_follows = (\<lambda>a cur. PageError),
      graph_get_followers = (\<lambda>a cur. if a = ''S'' then
          Page [\<lparr>a_did = ''A'', a_handle = ''a.test'', a_display_name = None\<rparr>] None
          else PageError)\<rparr>"

text \<open>
  A remote service with three accounts S, A and B that all follow one another.
\<close>

definition triangle_profile :: "did \<Rightarrow> profile" where
  "triangle_profile a =
     \<lparr>p_did = a, p_handle = a @ ''.test'', p_display_name = None,
      p_followers_count = 2, p_follows_count = 2, p_description = None\<rparr>"

definition triangle_actor :: "did \<Rightarrow> actor" where
  "triangle_actor a = \<lparr>a_did = a, a_handle = a @ ''.test'', a_display_name = None\<rparr>"

definition triangle_others :: "did \<Rightarrow> page" where
  "triangle_others a =
     (if a = ''S'' then Page [triangle_actor ''A'', triangle_actor ''B''] None
      else if a = ''A'' then Page [triangle_actor ''S'', triangle_actor ''B''] None
      else if a = ''B'' then Page [triangle_actor ''S'', triangle_actor ''A''] None
      else PageError)"

definition triangle_client :: client where
  "triangle_client =
     \<lparr>actor_get_profile = (\<lambda>a. if a \<in> {''S'', ''A'', ''B''} then Some (triangle_profile a)
                                else None),
      graph_get_follows = (\<lambda>a cur. triangle_others a),
      graph_get_followers = (\<lambda>a cur. triangle_others a)\<rparr>"

text \<open>
  A store as Phase 1 leaves it: the core members K1 and K2, crawled, and the uncrawled
  account X, which follows K1 and is followed by K2.
\<close>

definition p2_store :: store where
  "p2_store =
     \<lparr>users =
        [(''K1'', \<lparr>handle = ''k1.test'', display_name = None, followers_count = 1,
                  follows_count = 0, description = None, crawled = True,
                  is_mutual_core = True\<rparr>),
         (''K2'', \<lparr>handle = ''k2.test'', display_name = None, followers_count = 0,
                  follows_count = 1, description = None, crawled = True,
                  is_mutual_core = True\<rparr>),
         (''X'', \<lparr>handle = ''x.test'', display_name = None, followers_count = 0,
                 follows_count = 0, description = None, crawled = False,
                 is_mutual_core = False\<rparr>)],
      follows =
        [((''X'', ''K1''), \<lparr>follower_handle = ''x.test'', following_handle = ''k1.test'',
                             is_mutual = False\<rparr>),
         ((''K2'', ''X''), \<lparr>follower_handle = ''k2.test'', following_handle = ''x.test'',
                             is_mutual = False\<rparr>)]\<rparr>"

text \<open>
  Every crawl recorded in a history comes after an append of the same account that was
  decided on a store in which its count reached the threshold.
\<close>

definition crawls_gated :: "int \<Rightarrow> event list \<Rightarrow> bool" where
  "crawls_gated T ev \<longleftrightarrow>
     (\<forall>j<length ev. \<forall>x. ev ! j = Crawled x \<longrightarrow>
        (\<exists>s'. Enqueued x s' \<in> set (take j ev)
              \<and> T \<le> int (get_mutual_core_connection_count x s')))"

text \<open>
  The invariant of the Phase 2 loop behind claim C1, for a run started on the store \<open>s0\<close>:
  every queued account has a gated append in the history, every recorded crawl is gated,
  and every account flagged crawled since the start has a recorded crawl.
\<close>

definition p2_inv :: "int \<Rightarrow> store \<Rightarrow> p2_state \<Rightarrow> bool" where
  "p2_inv T s0 st \<longleftrightarrow>
     (\<forall>x \<in> set (to_process st).
        \<exists>s'. Enqueued x s' \<in> set (events st)
             \<and> T \<le> int (get_mutual_core_connection_count x s'))
     \<and> crawls_gated T (events st)
     \<and> (\<forall>x. truthy (is_crawled x (db st)) \<and> \<not> truthy (is_crawled x s0) \<longrightarrow>
              Crawled x \<in> set (events st))"

text \<open>
  A remote service for Phase 2 on that store: X has a profile, follows K1 and the new
  account Y, and is followed by K2; every other request raises.
\<close>

definition p2_client :: client where
  "p2_client =
     \<lparr>actor_get_profile = (\<lambda>a. if a = ''X'' then
          Some \<lparr>p_did = ''X'', p_handle = ''x.test'', p_display_name = Some ''Xe'',
                p_followers_count = 1, p_follows_count = 2, p_description = None\<rparr>
          else None),
      graph_get_follows = (\<lambda>a cur. if a = ''X'' then
          Page [\<lparr>a_did = ''K1'', a_handle = ''k1.test'', a_display_name = None\<rparr>,
                \<lparr>a_did = ''Y'', a_handle = ''y.test'', a_display_name = None\<rparr>] None
          else PageError),
      graph_get_followers = (\<lambda>a cur. if a = ''X'' then
          Page [\<lparr>a_did = ''K2'', a_handle = ''k2.test'', a_display_name = None\<rparr>] None
          else PageError)\<rparr>"

text \<open>The store after Phase 2 has crawled X with that remote service.\<close>

definition p2_store_after :: store where
  "p2_store_after =
     \<lparr>users =
        [(''K1'', \<lparr>handle = ''k1.test'', display_name = None, followers_count = 1,
                  follows_count = 0, description = None, crawled = True,
                  is_mutual_core = True\<rparr>),
         (''K2'', \<lparr>handle = ''k2.test'', display_name = None, followers_count = 0,
                  follows_count = 1, description = None, crawled = True,
                  is_mutual_core = True\<rparr>),
         (''X'', \<lparr>handle = ''x.test'', display_name = Some ''Xe'', followers_count = 1,
                 follows_count = 2, description = None, crawled = True,
                 is_mutual_core = False\<rparr>),
         (''Y'', \<lparr>handle = ''y.test'', display_name = None, followers_count = 0,
                 follows_count = 0, description = None, crawled = False,
                 is_mutual_core = False\<rparr>)],
      follows =
        [((''X'', ''K1''), \<lparr>follower_handle = ''x.test'', following_handle = ''k1.test'',
                             is_mutual = False\<rparr>),
         ((''K2'', ''X''), \<lparr>follower_handle = ''k2.test'', following_handle = ''x.test'',
                             is_mutual = False\<rparr>),
         ((''X'', ''Y''), \<lparr>follower_handle = ''x.test'', following_handle = ''y.test'',
                            is_mutual = False\<rparr>)]\<rparr>"

section \<open>Properties of the store\<close>

lemma select_user_None_iff: "select_user d s = None \<longleftrightarrow> d \<notin> fst ` set (users s)"
  by (simp add: select_user_def map_of_eq_None_iff)

lemma select_follow_None_iff:
  "select_follow u v s = None \<longleftrightarrow> (u, v) \<notin> fst ` set (follows s)"
  by (simp add: select_follow_def map_of_eq_None_iff)

lemma add_follow_present: "(u, v) \<in> fst ` set (follows s) \<Longrightarrow> add_follow u uh v vh m s = s"
  by (simp add: add_follow_def)

lemma map_of_map_upd:
  "map_of (map (\<lambda>(k, r). if k = d then (k, f r) else (k, r)) xs) d' =
     (if d' = d then map_option f (map_of xs d') else map_of xs d')"
  by (induction xs) auto

lemma select_user_mark_as_crawled:
  "select_user d' (mark_as_crawled d s) =
     (if d' = d then map_option (\<lambda>r. r\<lparr>crawled := True\<rparr>) (select_user d' s)
      else select_user d' s)"
  by (simp add: select_user_def mark_as_crawled_def map_of_map_upd)

lemma select_user_mark_as_mutual_core:
  "select_user d' (mark_as_mutual_core d s) =
     (if d' = d then map_option (\<lambda>r. r\<lparr>is_mutual_core := True\<rparr>) (select_user d' s)
      else select_user d' s)"
  by (simp add: select_user_def mark_as_mutual_core_def map_of_map_upd)

lemma mark_as_crawled_absent: "d \<notin> fst ` set (users s) \<Longrightarrow> mark_as_crawled d s = s"
proof -
  assume a: "d \<notin> fst ` set (users s)"
  have "map (\<lambda>(k, r). if k = d then (k, r\<lparr>crawled := True\<rparr>) else (k, r)) (users s) = users s"
    by (rule map_idI) (use a in \<open>auto simp: image_iff\<close>)
  then show ?thesis by (simp add: mark_as_crawled_def)
qed

lemma mark_as_mutual_core_absent:
  "d \<notin> fst ` set (users s) \<Longrightarrow> mark_as_mutual_core d s = s"
proof -
  assume a: "d \<notin> fst ` set (users s)"
  have "map (\<lambda>(k, r). if k = d then (k, r\<lparr>is_mutual_core := True\<rparr>) else (k, r)) (users s)
          = users s"
    by (rule map_idI) (use a in \<open>auto simp: image_iff\<close>)
  then show ?thesis by (simp add: mark_as_mutual_core_def)
qed

lemma select_user_add_user:
  "select_user d' (add_user d h dn fc gc desc s) =
     (if d' = d then
        Some (case select_user d s of
           None \<Rightarrow>
             \<lparr>handle = h, display_name = dn, followers_count = fc, follows_count = gc,
              description = desc, crawled = False, is_mutual_core = False\<rparr>
         | Some existing \<Rightarrow>
             \<lparr>handle = h,
              display_name =
                (if dn = None \<and> display_name existing \<noteq> None
                 then display_name existing else dn),
              followers_count =
                (if fc = 0 \<and> followers_count existing > 0
                 then followers_count existing else fc),
              follows_count =
                (if gc = 0 \<and> follows_count existing > 0
                 then follows_count existing else gc),
              description =
                (if desc = None \<and> description existing \<noteq> None
                 then description existing else desc),
              crawled = crawled existing,
              is_mutual_core = is_mutual_core existing\<rparr>)
      else select_user d' s)"
proof -
  have a: "map_of (filter (\<lambda>r. fst r \<noteq> d) xs) d = None" for xs :: "(did \<times> user_row) list"
    by (simp add: map_of_eq_None_iff image_iff)
  have b: "d' \<noteq> d \<Longrightarrow> map_of (filter (\<lambda>r. fst r \<noteq> d) xs) d' = map_of xs d'"
    for xs :: "(did \<times> user_row) list"
    by (induction xs) auto
  show ?thesis
    by (auto simp: select_user_def add_user_def Let_def map_add_def a b split: option.splits)
qed

text \<open>
  Claim C4. Once a directed edge (u, v) is stored, a later \<open>add_follow\<close> for the same
  ordered pair changes nothing, whatever its is_mutual argument: a second write after a
  first leaves the store of the first write; the first write on a store without the edge
  stores its own is_mutual value; and on any store that has the edge the call returns the
  store as it is, so the stored row stays.
\<close>

theorem add_follow_first_write_wins:
  "add_follow u uh2 v vh2 m2 (add_follow u uh1 v vh1 m1 s) = add_follow u uh1 v vh1 m1 s
   \<and> (select_follow u v s = None \<longrightarrow>
        map_option is_mutual (select_follow u v (add_follow u uh1 v vh1 m1 s)) = Some m1)
   \<and> (select_follow u v s' = Some r \<longrightarrow>
        add_follow u uh2 v vh2 m2 s' = s'
        \<and> select_follow u v (add_follow u uh2 v vh2 m2 s') = Some r)"
proof (intro conjI impI)
  show "add_follow u uh2 v vh2 m2 (add_follow u uh1 v vh1 m1 s) = add_follow u uh1 v vh1 m1 s"
    by (simp add: add_follow_def)
next
  assume "select_follow u v s = None"
  then have "(u, v) \<notin> fst ` set (follows s)" and "map_of (follows s) (u, v) = None"
    by (simp_all add: select_follow_def map_of_eq_None_iff)
  then show "map_option is_mutual (select_follow u v (add_follow u uh1 v vh1 m1 s)) = Some m1"
    by (simp add: add_follow_def select_follow_def map_add_def)
next
  assume r: "select_follow u v s' = Some r"
  then have "select_follow u v s' \<noteq> None" by simp
  then show e: "add_follow u uh2 v vh2 m2 s' = s'"
    by (simp add: select_follow_None_iff add_follow_present)
  from r show "select_follow u v (add_follow u uh2 v vh2 m2 s') = Some r"
    by (simp add: e)
qed

text \<open>Recording (u, v, false) and then (u, v, true) on the empty store leaves false.\<close>

theorem add_follow_first_write_wins_witness:
  "select_follow ''u'' ''v'' empty_store = None
   \<and> select_follow ''u'' ''v'' (add_follow ''u'' ''uh'' ''v'' ''vh'' False empty_store)
       = Some \<lparr>follower_handle = ''uh'', following_handle = ''vh'', is_mutual = False\<rparr>
   \<and> select_follow ''u'' ''v''
        (add_follow ''u'' ''uh2'' ''v'' ''vh2'' True
           (add_follow ''u'' ''uh'' ''v'' ''vh'' False empty_store))
       = Some \<lparr>follower_handle = ''uh'', following_handle = ''vh'', is_mutual = False\<rparr>"
proof -
  let ?s1 = "add_follow ''u'' ''uh'' ''v'' ''vh'' False empty_store"
  let ?r = "\<lparr>follower_handle = ''uh'', following_handle = ''vh'', is_mutual = False\<rparr>"
  have n: "select_follow ''u'' ''v'' empty_store = None"
    by (simp add: select_follow_def empty_store_def)
  have p: "select_follow ''u'' ''v'' ?s1 = Some ?r"
    by (simp add: select_follow_def add_follow_def empty_store_def)
  from add_follow_first_write_wins
         [of "''u''" "''uh2''" "''v''" "''vh2''" True "''uh''" "''vh''" False empty_store ?s1 ?r]
       n p
  show ?thesis by simp
qed

text \<open>
  Claim C5, as the code has it. \<open>add_user\<close> on an account that has a row keeps the stored
  crawled and is_mutual_core flags; keeps a stored positive count when the incoming count
  is 0; keeps the stored description and display name when the incoming one is None; and
  leaves every other account's row as it is.
\<close>

theorem add_user_merge:
  assumes "select_user d s = Some old"
  shows "\<exists>new. select_user d (add_user d h dn fc gc desc s) = Some new
           \<and> crawled new = crawled old \<and> is_mutual_core new = is_mutual_core old
           \<and> (fc = 0 \<and> followers_count old > 0 \<longrightarrow> followers_count new = followers_count old)
           \<and> (gc = 0 \<and> follows_count old > 0 \<longrightarrow> follows_count new = follows_count old)
           \<and> (desc = None \<longrightarrow> description new = description old)
           \<and> (dn = None \<longrightarrow> display_name new = display_name old)
           \<and> (\<forall>d'. d' \<noteq> d \<longrightarrow>
                 select_user d' (add_user d h dn fc gc desc s) = select_user d' s)"
  using assms by (simp add: select_user_add_user)

text \<open>An upsert with follower count 0 and no description after one with 500 keeps 500.\<close>

theorem add_user_merge_witness:
  "\<exists>new. select_user ''a''
            (add_user ''a'' ''a.test'' None 0 0 None
               (add_user ''a'' ''a.test'' (Some ''Ann'') 500 20 (Some ''bio'') empty_store))
          = Some new
        \<and> followers_count new = 500 \<and> follows_count new = 20
        \<and> description new = Some ''bio'' \<and> display_name new = Some ''Ann''
        \<and> \<not> crawled new \<and> \<not> is_mutual_core new
        \<and> select_user ''b''
            (add_user ''a'' ''a.test'' None 0 0 None
               (add_user ''a'' ''a.test'' (Some ''Ann'') 500 20 (Some ''bio'') empty_store))
          = select_user ''b''
              (add_user ''a'' ''a.test'' (Some ''Ann'') 500 20 (Some ''bio'') empty_store)"
proof -
  let ?s = "add_user ''a'' ''a.test'' (Some ''Ann'') 500 20 (Some ''bio'') empty_store"
  let ?old = "\<lparr>handle = ''a.test'', display_name = Some ''Ann'', followers_count = 500,
               follows_count = 20, description = Some ''bio'', crawled = False,
               is_mutual_core = False\<rparr>"
  have h: "select_user ''a'' ?s = Some ?old"
    by (simp add: select_user_add_user) (simp add: select_user_def empty_store_def)
  from add_user_merge [OF h, of "''a.test''" None 0 0 None]
  show ?thesis by auto
qed

text \<open>
  Claim C5 as stated fails: an incoming empty string is not None, so an upsert with an
  empty description and an empty display name replaces the stored non-empty ones.
\<close>

theorem add_user_empty_string_counterexample:
  "select_user ''a''
     (add_user ''a'' ''a.test'' (Some []) 0 0 (Some [])
        (add_user ''a'' ''a.test'' (Some ''Ann'') 500 20 (Some ''bio'') empty_store))
   = Some \<lparr>handle = ''a.test'', display_name = Some [], followers_count = 500,
           follows_count = 20, description = Some [], crawled = False,
           is_mutual_core = False\<rparr>"
  by (simp add: select_user_add_user) (simp add: select_user_def empty_store_def)

text \<open>
  Claim C10. For an identifier with no row in the users table, \<open>is_crawled\<close> returns
  None, which is not true, and \<open>mark_as_crawled\<close> and \<open>mark_as_mutual_core\<close> return the
  store unchanged. In every store the row read back after a mark is the row read before
  with the flag set, if there was one, and no row if there was none.
\<close>

theorem unknown_id_marks_nothing:
  "(select_user d s = None \<longrightarrow>
      is_crawled d s = None \<and> \<not> truthy (is_crawled d s)
      \<and> mark_as_crawled d s = s \<and> mark_as_mutual_core d s = s)
   \<and> select_user d (mark_as_crawled d s') =
       map_option (\<lambda>r. r\<lparr>crawled := True\<rparr>) (select_user d s')
   \<and> select_user d (mark_as_mutual_core d s') =
       map_option (\<lambda>r. r\<lparr>is_mutual_core := True\<rparr>) (select_user d s')"
proof (intro conjI impI)
  assume n: "select_user d s = None"
  then have a: "d \<notin> fst ` set (users s)" by (simp add: select_user_None_iff)
  from n show "is_crawled d s = None" by (simp add: is_crawled_def)
  from n show "\<not> truthy (is_crawled d s)" by (simp add: is_crawled_def truthy_def)
  from a show "mark_as_crawled d s = s" by (rule mark_as_crawled_absent)
  from a show "mark_as_mutual_core d s = s" by (rule mark_as_mutual_core_absent)
next
  show "select_user d (mark_as_crawled d s') =
          map_option (\<lambda>r. r\<lparr>crawled := True\<rparr>) (select_user d s')"
    by (simp add: select_user_mark_as_crawled)
next
  show "select_user d (mark_as_mutual_core d s') =
          map_option (\<lambda>r. r\<lparr>is_mutual_core := True\<rparr>) (select_user d s')"
    by (simp add: select_user_mark_as_mutual_core)
qed

text \<open>A store that knows only account a: marking the unknown b changes nothing.\<close>

theorem unknown_id_marks_nothing_witness:
  "select_user ''b'' (add_user ''a'' ''a.test'' None 0 0 None empty_store) = None
   \<and> is_crawled ''b'' (add_user ''a'' ''a.test'' None 0 0 None empty_store) = None
   \<and> mark_as_crawled ''b'' (add_user ''a'' ''a.test'' None 0 0 None empty_store)
       = add_user ''a'' ''a.test'' None 0 0 None empty_store
   \<and> mark_as_mutual_core ''b'' (add_user ''a'' ''a.test'' None 0 0 None empty_store)
       = add_user ''a'' ''a.test'' None 0 0 None empty_store"
proof -
  have n: "select_user ''b'' (add_user ''a'' ''a.test'' None 0 0 None empty_store) = None"
    by (simp add: select_user_add_user) (simp add: select_user_def empty_store_def)
  from unknown_id_marks_nothing
         [of "''b''" "add_user ''a'' ''a.test'' None 0 0 None empty_store"] n
  show ?thesis by simp
qed

section \<open>Properties of the traversal\<close>

lemma users_add_follow [simp]: "users (add_follow u uh v vh m s) = users s"
  by (simp add: add_follow_def)

lemma follows_add_user [simp]: "follows (add_user d h dn fc gc desc s) = follows s"
  by (simp add: add_user_def Let_def)

lemma select_user_add_follow [simp]: "select_user d (add_follow u uh v vh m s) = select_user d s"
  by (simp add: select_user_def)

lemma p1_add_follows_preserves:
  assumes "\<And>d h dn s. P s \<Longrightarrow> P (add_user d h dn 0 0 None s)"
    and "\<And>u uh v vh m s. P s \<Longrightarrow> P (add_follow u uh v vh m s)"
    and "P s"
  shows "P (p1_add_follows cur ch ms fs s)"
  using assms(3) unfolding p1_add_follows_def
  by (induction fs arbitrary: s) (simp_all add: assms(1,2))

lemma p1_add_followers_preserves:
  assumes "\<And>d h dn s. P s \<Longrightarrow> P (add_user d h dn 0 0 None s)"
    and "\<And>u uh v vh m s. P s \<Longrightarrow> P (add_follow u uh v vh m s)"
    and "P s"
  shows "P (p1_add_followers cur ch fd gs s)"
  using assms(3) unfolding p1_add_followers_def
  by (induction gs arbitrary: s) (simp_all add: assms(1,2) Let_def)

lemma p2_add_follows_preserves:
  assumes "\<And>d h dn s. P s \<Longrightarrow> P (add_user d h dn 0 0 None s)"
    and "\<And>u uh v vh m s. P s \<Longrightarrow> P (add_follow u uh v vh m s)"
    and "P s"
  shows "P (p2_add_follows cur ch fs s)"
  using assms(3) unfolding p2_add_follows_def
  by (induction fs arbitrary: s) (simp_all add: assms(1,2))

lemma p2_add_followers_preserves:
  assumes "\<And>d h dn s. P s \<Longrightarrow> P (add_user d h dn 0 0 None s)"
    and "\<And>u uh v vh m s. P s \<Longrightarrow> P (add_follow u uh v vh m s)"
    and "P s"
  shows "P (p2_add_followers cur ch gs s)"
  using assms(3) unfolding p2_add_followers_def
  by (induction gs arbitrary: s) (simp_all add: assms(1,2))

text \<open>The three ways through the body of the Phase 1 loop.\<close>

lemma phase1_body_cases:
  assumes "phase1_body c st = Some st'" and "to_process st = cur # queue"
  obtains (skip) "cur \<in> processed st \<or> truthy (is_crawled cur (db st))"
      "st' = st\<lparr>to_process := queue\<rparr>"
  | (failed) "cur \<notin> processed st" "\<not> truthy (is_crawled cur (db st))"
      "get_profile c cur = None" "st' = st\<lparr>to_process := queue\<rparr>"
  | (crawl) prof res s3 new where
      "cur \<notin> processed st" "\<not> truthy (is_crawled cur (db st))"
      "get_profile c cur = Some prof" "find_mutuals c cur = Some res"
      "s3 = p1_add_followers cur (p_handle prof) (set (map a_did (r_follows res)))
              (r_followers res)
              (p1_add_follows cur (p_handle prof) (r_mutuals res) (r_follows res)
                 (add_user (p_did prof) (p_handle prof) (p_display_name prof)
                    (p_followers_count prof) (p_follows_count prof) (p_description prof)
                    (db st)))"
      "new = p1_new_mutuals (processed st) s3 (r_mutuals res)"
      "st' = \<lparr>to_process = queue @ new, processed = insert cur (processed st),
              db = mark_as_mutual_core cur (mark_as_crawled cur s3),
              events = events st @ map (EnqueuedMutual cur) new @ [Crawled cur]\<rparr>"
  using assms
  by (auto simp: phase1_body_def Let_def split: if_splits option.splits)

lemma phase1_loop_invariant:
  assumes step: "\<And>st st'. I st \<Longrightarrow> \<not> phase1_exit max_users st \<Longrightarrow>
                   phase1_body c st = Some st' \<Longrightarrow> I st'"
    and "I st" and "phase1_loop n c max_users st = Some st'"
  shows "I st'"
  using assms(2,3)
proof (induction n arbitrary: st)
  case 0
  then show ?case by simp
next
  case (Suc n)
  show ?case
  proof (cases "phase1_exit max_users st")
    case True
    with Suc.prems show ?thesis by simp
  next
    case False
    with Suc.prems obtain st1 where b: "phase1_body c st = Some st1"
      and l: "phase1_loop n c max_users st1 = Some st'"
      by (auto split: option.splits)
    from step [OF Suc.prems(1) False b] have "I st1" .
    from Suc.IH [OF this l] show ?thesis .
  qed
qed

lemma find_mutuals_members:
  assumes "find_mutuals c a = Some res"
  shows "set (r_mutuals res) =
           set (map a_did (r_follows res)) \<inter> set (map a_did (r_followers res))"
  using assms by (auto simp: find_mutuals_def split: option.splits) (metis imageI)

lemma p1_inv_step:
  assumes i: "p1_inv c seed st" and b: "phase1_body c st = Some st'"
  shows "p1_inv c seed st'"
proof (cases "to_process st")
  case Nil
  with b have "st' = st" by (simp add: phase1_body_def)
  with i show ?thesis by simp
next
  case (Cons cur queue)
  from b Cons show ?thesis
  proof (cases rule: phase1_body_cases)
    case skip
    with i Cons show ?thesis by (auto simp: p1_inv_def)
  next
    case failed
    with i Cons show ?thesis by (auto simp: p1_inv_def)
  next
    case (crawl prof res s3 new)
    have n: "set new \<subseteq> set (r_mutuals res)"
      by (auto simp: crawl(6) p1_new_mutuals_def)
    note m = find_mutuals_members [OF crawl(4)]
    show ?thesis
      unfolding p1_inv_def
    proof (intro conjI ballI allI impI)
      fix x assume "x \<in> set (to_process st')"
      then have "x \<in> set queue \<or> x \<in> set new" by (simp add: crawl(7))
      then show "x = seed \<or> (\<exists>cur. EnqueuedMutual cur x \<in> set (events st'))"
      proof
        assume "x \<in> set queue"
        with i Cons have "x = seed \<or> (\<exists>cur. EnqueuedMutual cur x \<in> set (events st))"
          by (auto simp: p1_inv_def)
        then show ?thesis by (auto simp: crawl(7))
      next
        assume "x \<in> set new"
        then have "EnqueuedMutual cur x \<in> set (events st')" by (simp add: crawl(7))
        then show ?thesis by blast
      qed
    next
      fix cur' x assume e: "EnqueuedMutual cur' x \<in> set (events st')"
      then have "EnqueuedMutual cur' x \<in> set (events st) \<or> (cur' = cur \<and> x \<in> set new)"
        by (auto simp: crawl(7))
      then show "Crawled cur' \<in> set (events st')"
        using i by (auto simp: p1_inv_def crawl(7))
    next
      fix cur' x assume e: "EnqueuedMutual cur' x \<in> set (events st')"
      then have "EnqueuedMutual cur' x \<in> set (events st) \<or> (cur' = cur \<and> x \<in> set new)"
        by (auto simp: crawl(7))
      then show "\<exists>res. find_mutuals c cur' = Some res
                 \<and> x \<in> set (map a_did (r_follows res)) \<inter> set (map a_did (r_followers res))"
      proof
        assume "EnqueuedMutual cur' x \<in> set (events st)"
        with i show ?thesis by (simp add: p1_inv_def)
      next
        assume "cur' = cur \<and> x \<in> set new"
        with n m crawl(4) show ?thesis by auto
      qed
    qed
  qed
qed

text \<open>
  Claim C2. In a Phase 1 run every identifier in the queue is the seed or was appended as a
  mutual, and every identifier appended after the seed lies in the mutual intersection
  (the dids of the follow list intersected with the dids of the follower list) fetched for
  the account that is crawled in the step that appends it.
\<close>

theorem phase1_enqueues_only_mutuals:
  assumes "phase1_mutuals_graph n c s seed max_users = Some st"
  shows "(\<forall>x \<in> set (to_process st). x = seed \<or> (\<exists>cur. EnqueuedMutual cur x \<in> set (events st)))
     \<and> (\<forall>cur x. EnqueuedMutual cur x \<in> set (events st) \<longrightarrow>
           Crawled cur \<in> set (events st)
           \<and> (\<exists>res. find_mutuals c cur = Some res
                 \<and> x \<in> set (map a_did (r_follows res)) \<inter> set (map a_did (r_followers res))))"
proof -
  have "p1_inv c seed (phase1_init s seed)"
    by (simp add: p1_inv_def phase1_init_def)
  from phase1_loop_invariant
         [where I = "p1_inv c seed", OF _ this assms [unfolded phase1_mutuals_graph_def]]
  have "p1_inv c seed st" by (simp add: p1_inv_step)
  then show ?thesis by (simp add: p1_inv_def)
qed

lemma follows_mark_as_crawled [simp]: "follows (mark_as_crawled d s) = follows s"
  by (simp add: mark_as_crawled_def)

lemma follows_mark_as_mutual_core [simp]: "follows (mark_as_mutual_core d s) = follows s"
  by (simp add: mark_as_mutual_core_def)

lemma user_keys_add_user:
  "fst ` set (users (add_user d h dn fc gc desc s)) = insert d (fst ` set (users s))"
  by (auto simp: add_user_def Let_def image_iff)

lemma user_keys_mark_as_crawled: "fst ` set (users (mark_as_crawled d s)) = fst ` set (users s)"
  by (force simp: mark_as_crawled_def image_iff split: if_splits)

lemma user_keys_mark_as_mutual_core:
  "fst ` set (users (mark_as_mutual_core d s)) = fst ` set (users s)"
  by (force simp: mark_as_mutual_core_def image_iff split: if_splits)

lemma follows_add_follow:
  "follows (add_follow u uh v vh m s) =
     (if (u, v) \<in> fst ` set (follows s) then follows s
      else follows s @
        [((u, v), \<lparr>follower_handle = uh, following_handle = vh, is_mutual = m\<rparr>)])"
  by (simp add: add_follow_def)

lemma empty_store_simps:
  "users empty_store = []" "follows empty_store = []" "select_user d empty_store = None"
  by (simp_all add: empty_store_def select_user_def)

lemma scenario_fetch:
  "get_profile scenario_client ''S'' =
     Some \<lparr>p_did = ''S'', p_handle = ''s.test'', p_display_name = Some ''Seed'',
           p_followers_count = 2, p_follows_count = 2, p_description = None\<rparr>"
  "get_all_follows scenario_client ''S'' =
     Some [\<lparr>a_did = ''A'', a_handle = ''a.test'', a_display_name = None\<rparr>,
           \<lparr>a_did = ''B'', a_handle = ''b.test'', a_display_name = None\<rparr>]"
  "get_all_followers scenario_client ''S'' =
     Some [\<lparr>a_did = ''A'', a_handle = ''a.test'', a_display_name = None\<rparr>,
           \<lparr>a_did = ''C'', a_handle = ''c.test'', a_display_name = None\<rparr>]"
  by (simp_all add: get_profile_def get_all_follows_def get_all_followers_def
        scenario_client_def fetch_pages.simps cursor_set_def)

lemma scenario_run:
  "\<exists>d. phase1_mutuals_graph 1 scenario_client empty_store ''S'' None =
         Some \<lparr>to_process = [''A''], processed = {''S''}, db = d,
               events = [EnqueuedMutual ''S'' ''A'', Crawled ''S'']\<rparr>"
  by (simp add: phase1_mutuals_graph_def phase1_exit_def limit_reached_def phase1_body_def
        phase1_init_def find_mutuals_def scenario_fetch empty_store_simps is_crawled_def
        truthy_def p1_add_follows_def p1_add_followers_def p1_new_mutuals_def Let_def
        select_user_add_user select_user_mark_as_crawled select_user_mark_as_mutual_core)

text \<open>In the scenario run the only append is A, made while S is crawled.\<close>

theorem phase1_enqueues_only_mutuals_witness:
  "\<exists>st. phase1_mutuals_graph 1 scenario_client empty_store ''S'' None = Some st
     \<and> to_process st = [''A'']
     \<and> EnqueuedMutual ''S'' ''A'' \<in> set (events st)
     \<and> Crawled ''S'' \<in> set (events st)
     \<and> (\<exists>res. find_mutuals scenario_client ''S'' = Some res
           \<and> ''A'' \<in> set (map a_did (r_follows res)) \<inter> set (map a_did (r_followers res)))"
proof -
  from scenario_run obtain d where
    r: "phase1_mutuals_graph 1 scenario_client empty_store ''S'' None =
          Some \<lparr>to_process = [''A''], processed = {''S''}, db = d,
                events = [EnqueuedMutual ''S'' ''A'', Crawled ''S'']\<rparr>"
    by blast
  from phase1_enqueues_only_mutuals [OF r] r show ?thesis
    by simp
qed

text \<open>
  Claim C3. A seed S with fetched follows A, B and fetched followers A, C, crawled on the
  empty store: one pass of the Phase 1 loop leaves the accounts S, A, B, C in the users
  table, exactly the edges S \<rightarrow> A (mutual), S \<rightarrow> B (not mutual) and C \<rightarrow> S (not mutual) in
  the follows table, the queue [A], and S flagged crawled and core member.
\<close>

theorem phase1_step_scenario:
  assumes d: "distinct [S, A, B, C]"
    and p: "get_profile c S = Some prof" "p_did prof = S"
    and f: "get_all_follows c S = Some [fa, fb]" "a_did fa = A" "a_did fb = B"
    and g: "get_all_followers c S = Some [ga, gc]" "a_did ga = A" "a_did gc = C"
  shows "\<exists>st'. phase1_body c (phase1_init empty_store S) = Some st'
     \<and> fst ` set (users (db st')) = {S, A, B, C}
     \<and> follows (db st') =
         [((S, A), \<lparr>follower_handle = p_handle prof, following_handle = a_handle fa,
                    is_mutual = True\<rparr>),
          ((S, B), \<lparr>follower_handle = p_handle prof, following_handle = a_handle fb,
                    is_mutual = False\<rparr>),
          ((C, S), \<lparr>follower_handle = a_handle gc, following_handle = p_handle prof,
                    is_mutual = False\<rparr>)]
     \<and> to_process st' = [A]
     \<and> processed st' = {S}
     \<and> map_option crawled (select_user S (db st')) = Some True
     \<and> map_option is_mutual_core (select_user S (db st')) = Some True"
proof -
  have m: "find_mutuals c S =
             Some \<lparr>r_follows = [fa, fb], r_followers = [ga, gc], r_mutuals = [A]\<rparr>"
    using d f g by (simp add: find_mutuals_def)
  show ?thesis
    using d p f(2,3) g(2,3)
    by (simp add: phase1_body_def phase1_init_def m empty_store_simps is_crawled_def truthy_def
          p1_add_follows_def p1_add_followers_def p1_new_mutuals_def Let_def
          user_keys_add_user user_keys_mark_as_crawled user_keys_mark_as_mutual_core
          follows_add_follow select_user_add_user select_user_mark_as_crawled
          select_user_mark_as_mutual_core)
       auto
qed

theorem phase1_step_scenario_witness:
  "\<exists>st'. phase1_body scenario_client (phase1_init empty_store ''S'') = Some st'
     \<and> fst ` set (users (db st')) = {''S'', ''A'', ''B'', ''C''}
     \<and> follows (db st') =
         [((''S'', ''A''), \<lparr>follower_handle = ''s.test'', following_handle = ''a.test'',
                    is_mutual = True\<rparr>),
          ((''S'', ''B''), \<lparr>follower_handle = ''s.test'', following_handle = ''b.test'',
                    is_mutual = False\<rparr>),
          ((''C'', ''S''), \<lparr>follower_handle = ''c.test'', following_handle = ''s.test'',
                    is_mutual = False\<rparr>)]
     \<and> to_process st' = [''A'']
     \<and> processed st' = {''S''}
     \<and> map_option crawled (select_user ''S'' (db st')) = Some True
     \<and> map_option is_mutual_core (select_user ''S'' (db st')) = Some True"
proof -
  have d: "distinct [''S'', ''A'', ''B'', ''C'']" by simp
  from phase1_step_scenario [OF d scenario_fetch(1) _ scenario_fetch(2) _ _ scenario_fetch(3)]
  show ?thesis by simp
qed

lemmas run_simps =
  phase1_mutuals_graph_def phase1_exit_def limit_reached_def phase1_body_def
  phase1_init_def find_mutuals_def empty_store_simps is_crawled_def
  truthy_def p1_add_follows_def p1_add_followers_def p1_new_mutuals_def Let_def
  select_user_add_user select_user_mark_as_crawled select_user_mark_as_mutual_core

lemma triangle_fetch:
  "get_profile triangle_client ''S'' = Some (triangle_profile ''S'')"
  "get_profile triangle_client ''A'' = Some (triangle_profile ''A'')"
  "get_all_follows triangle_client ''S'' = Some [triangle_actor ''A'', triangle_actor ''B'']"
  "get_all_followers triangle_client ''S'' = Some [triangle_actor ''A'', triangle_actor ''B'']"
  "get_all_follows triangle_client ''A'' = Some [triangle_actor ''S'', triangle_actor ''B'']"
  "get_all_followers triangle_client ''A'' = Some [triangle_actor ''S'', triangle_actor ''B'']"
  by (simp_all add: get_profile_def get_all_follows_def get_all_followers_def
        triangle_client_def triangle_others_def fetch_pages.simps cursor_set_def)

lemma triangle_simps:
  "a_did (triangle_actor a) = a" "p_did (triangle_profile a) = a"
  by (simp_all add: triangle_actor_def triangle_profile_def)

text \<open>
  Claim C9 as stated fails for Phase 1: with S, A and B mutual to one another, B is
  appended while S is crawled and again while A is crawled, and the queue holds it twice.
\<close>

theorem phase1_queue_duplicate_counterexample:
  "map_option to_process (phase1_mutuals_graph 2 triangle_client empty_store ''S'' None)
     = Some [''B'', ''B'']"
  by (simp add: numeral_2_eq_2 run_simps triangle_fetch triangle_simps)

lemma fetch_pages_error: "endpoint cursor = PageError \<Longrightarrow> fetch_pages endpoint cursor acc = Some acc"
  by (simp add: fetch_pages.simps)

lemma select_user_kept_by_p1_stores:
  assumes "select_user x s \<noteq> None"
  shows "select_user x (p1_add_follows cur ch ms fs s) \<noteq> None"
    and "select_user x (p1_add_followers cur ch fd gs s) \<noteq> None"
proof -
  show "select_user x (p1_add_follows cur ch ms fs s) \<noteq> None"
    by (rule p1_add_follows_preserves [where P = "\<lambda>s. select_user x s \<noteq> None"])
       (simp_all add: select_user_add_user assms)
  show "select_user x (p1_add_followers cur ch fd gs s) \<noteq> None"
    by (rule p1_add_followers_preserves [where P = "\<lambda>s. select_user x s \<noteq> None"])
       (simp_all add: select_user_add_user assms)
qed

lemma follows_error_fetch:
  "get_profile follows_error_client ''S'' =
     Some \<lparr>p_did = ''S'', p_handle = ''s.test'', p_display_name = None,
           p_followers_count = 1, p_follows_count = 1, p_description = None\<rparr>"
  "graph_get_follows follows_error_client ''S'' None = PageError"
  "get_all_follows follows_error_client ''S'' = Some []"
  "get_all_followers follows_error_client ''S'' =
     Some [\<lparr>a_did = ''A'', a_handle = ''a.test'', a_display_name = None\<rparr>]"
  by (simp_all add: get_profile_def get_all_follows_def get_all_followers_def
        follows_error_client_def fetch_pages.simps cursor_set_def)

text \<open>
  Claim C6 as stated fails for a connection-list failure: when every follows request for S
  raises, \<open>get_all_follows\<close> returns the empty list, and the pass of the Phase 1 loop
  upserts S, records the edge from its follower and marks S crawled and core member.
\<close>

theorem phase1_list_failure_counterexample:
  "get_profile follows_error_client ''S'' \<noteq> None
   \<and> graph_get_follows follows_error_client ''S'' None = PageError
   \<and> map_option db (phase1_body follows_error_client (phase1_init empty_store ''S''))
       = Some \<lparr>users =
                 [(''S'', \<lparr>handle = ''s.test'', display_name = None, followers_count = 1,
                          follows_count = 1, description = None, crawled = True,
                          is_mutual_core = True\<rparr>),
                  (''A'', \<lparr>handle = ''a.test'', display_name = None, followers_count = 0,
                          follows_count = 0, description = None, crawled = False,
                          is_mutual_core = False\<rparr>)],
               follows =
                 [((''A'', ''S''), \<lparr>follower_handle = ''a.test'',
                                     following_handle = ''s.test'', is_mutual = False\<rparr>)]\<rparr>"
  by (simp add: follows_error_fetch phase1_body_def phase1_init_def find_mutuals_def
        is_crawled_def truthy_def p1_add_follows_def p1_add_followers_def p1_new_mutuals_def
        Let_def empty_store_def select_user_def add_user_def add_follow_def
        mark_as_crawled_def mark_as_mutual_core_def)

text \<open>
  Claim C6, as the code has it. When the profile fetch for the dequeued account fails, the
  pass of the Phase 1 loop only removes it from the queue: the store, the processed set and
  the history stay as they are, so the account is not upserted, gets no edge and is not
  marked crawled. A follows request that raises on the first page does not abandon the
  account: \<open>get_all_follows\<close> returns the empty list, and if the followers fetch returns,
  the pass completes, with the account processed and flagged crawled.
\<close>

theorem phase1_fetch_failure:
  "(to_process st = cur # queue \<and> get_profile c cur = None \<longrightarrow>
      phase1_body c st = Some (st\<lparr>to_process := queue\<rparr>)
      \<and> db (st\<lparr>to_process := queue\<rparr>) = db st
      \<and> processed (st\<lparr>to_process := queue\<rparr>) = processed st
      \<and> events (st\<lparr>to_process := queue\<rparr>) = events st)
   \<and> (to_process st' = cur' # queue' \<and> cur' \<notin> processed st'
        \<and> \<not> truthy (is_crawled cur' (db st'))
        \<and> get_profile c' cur' = Some prof \<and> p_did prof = cur'
        \<and> graph_get_follows c' cur' None = PageError
        \<and> get_all_followers c' cur' = Some gs \<longrightarrow>
      get_all_follows c' cur' = Some []
      \<and> (\<exists>st''. phase1_body c' st' = Some st'' \<and> cur' \<in> processed st''
            \<and> truthy (is_crawled cur' (db st''))))"
proof (intro conjI impI)
  assume "to_process st = cur # queue \<and> get_profile c cur = None"
  then show "phase1_body c st = Some (st\<lparr>to_process := queue\<rparr>)"
    by (simp add: phase1_body_def)
next
  assume a: "to_process st' = cur' # queue' \<and> cur' \<notin> processed st'
        \<and> \<not> truthy (is_crawled cur' (db st'))
        \<and> get_profile c' cur' = Some prof \<and> p_did prof = cur'
        \<and> graph_get_follows c' cur' None = PageError
        \<and> get_all_followers c' cur' = Some gs"
  then show f: "get_all_follows c' cur' = Some []"
    by (simp add: get_all_follows_def fetch_pages_error)
  let ?s1 = "add_user cur' (p_handle prof) (p_display_name prof) (p_followers_count prof)
               (p_follows_count prof) (p_description prof) (db st')"
  let ?s3 = "p1_add_followers cur' (p_handle prof) {} gs
               (p1_add_follows cur' (p_handle prof) [] [] ?s1)"
  have "select_user cur' ?s1 \<noteq> None" by (simp add: select_user_add_user)
  then have "select_user cur' ?s3 \<noteq> None"
    by (intro select_user_kept_by_p1_stores)
  then have "truthy (is_crawled cur' (mark_as_mutual_core cur' (mark_as_crawled cur' ?s3)))"
    by (auto simp: is_crawled_def truthy_def select_user_mark_as_crawled
          select_user_mark_as_mutual_core)
  with a f show "\<exists>st''. phase1_body c' st' = Some st'' \<and> cur' \<in> processed st''
            \<and> truthy (is_crawled cur' (db st''))"
    by (simp add: phase1_body_def find_mutuals_def Let_def)
qed simp_all

theorem phase1_fetch_failure_witness:
  "to_process (phase1_init empty_store ''A'') = [''A'']
   \<and> get_profile scenario_client ''A'' = None
   \<and> phase1_body scenario_client (phase1_init empty_store ''A'')
       = Some \<lparr>to_process = [], processed = {}, db = empty_store, events = []\<rparr>
   \<and> get_all_follows follows_error_client ''S'' = Some []
   \<and> (\<exists>st''. phase1_body follows_error_client (phase1_init empty_store ''S'') = Some st''
         \<and> ''S'' \<in> processed st'' \<and> truthy (is_crawled ''S'' (db st'')))"
proof -
  have h1: "to_process (phase1_init empty_store ''A'') = ''A'' # []
              \<and> get_profile scenario_client ''A'' = None"
    by (simp add: phase1_init_def get_profile_def scenario_client_def)
  have h2: "to_process (phase1_init empty_store ''S'') = ''S'' # []
        \<and> ''S'' \<notin> processed (phase1_init empty_store ''S'')
        \<and> \<not> truthy (is_crawled ''S'' (db (phase1_init empty_store ''S'')))
        \<and> get_profile follows_error_client ''S'' =
            Some \<lparr>p_did = ''S'', p_handle = ''s.test'', p_display_name = None,
                  p_followers_count = 1, p_follows_count = 1, p_description = None\<rparr>
        \<and> p_did \<lparr>p_did = ''S'', p_handle = ''s.test'', p_display_name = None,
                  p_followers_count = 1, p_follows_count = 1, p_description = None\<rparr> = ''S''
        \<and> graph_get_follows follows_error_client ''S'' None = PageError
        \<and> get_all_followers follows_error_client ''S'' =
            Some [\<lparr>a_did = ''A'', a_handle = ''a.test'', a_display_name = None\<rparr>]"
    by (simp add: phase1_init_def follows_error_fetch is_crawled_def truthy_def
          empty_store_simps)
  from phase1_fetch_failure
         [of "phase1_init empty_store ''A''" "''A''" "[]" scenario_client
             "phase1_init empty_store ''S''" "''S''" "[]" follows_error_client
             "\<lparr>p_did = ''S'', p_handle = ''s.test'', p_display_name = None,
               p_followers_count = 1, p_follows_count = 1, p_description = None\<rparr>"
             "[\<lparr>a_did = ''A'', a_handle = ''a.test'', a_display_name = None\<rparr>]"]
       h1 h2
  show ?thesis by (simp add: phase1_init_def)
qed

subsection \<open>Phase 2\<close>

text \<open>The three ways through the body of the Phase 2 loop.\<close>

lemma phase2_body_cases:
  assumes "phase2_body c T st = Some st'" and "to_process st = cur # queue"
  obtains (skip) "cur \<in> processed st \<or> truthy (is_crawled cur (db st))"
      "st' = st\<lparr>to_process := queue\<rparr>"
  | (failed) "cur \<notin> processed st" "\<not> truthy (is_crawled cur (db st))"
      "get_profile c cur = None"
      "st' = st\<lparr>to_process := queue, processed := insert cur (processed st)\<rparr>"
  | (crawl) prof fs gs s3 qe where
      "cur \<notin> processed st" "\<not> truthy (is_crawled cur (db st))"
      "get_profile c cur = Some prof"
      "get_all_follows c cur = Some fs" "get_all_followers c cur = Some gs"
      "s3 = p2_add_followers cur (p_handle prof) gs
              (p2_add_follows cur (p_handle prof) fs
                 (add_user (p_did prof) (p_handle prof) (p_display_name prof)
                    (p_followers_count prof) (p_follows_count prof) (p_description prof)
                    (db st)))"
      "qe = p2_scan T (processed st) s3 (map fst (temp_connections fs gs)) (queue, events st)"
      "st' = \<lparr>to_process = fst qe, processed = insert cur (processed st),
              db = mark_as_crawled cur s3, events = snd qe @ [Crawled cur],
              crawled_count = Suc (crawled_count st)\<rparr>"
  using assms
  by (auto simp: phase2_body_def Let_def split: if_splits option.splits)

lemma phase2_body_empty: "to_process st = [] \<Longrightarrow> phase2_body c T st = Some st"
  by (simp add: phase2_body_def)

lemma phase2_loop_invariant:
  assumes step: "\<And>st st'. I st \<Longrightarrow> \<not> phase2_exit max_users st \<Longrightarrow>
                   phase2_body c T st = Some st' \<Longrightarrow> I st'"
    and "I st" and "phase2_loop n c T max_users st = Some st'"
  shows "I st'"
  using assms(2,3)
proof (induction n arbitrary: st)
  case 0
  then show ?case by simp
next
  case (Suc n)
  show ?case
  proof (cases "phase2_exit max_users st")
    case True
    with Suc.prems show ?thesis by simp
  next
    case False
    with Suc.prems obtain st1 where b: "phase2_body c T st = Some st1"
      and l: "phase2_loop n c T max_users st1 = Some st'"
      by (auto split: option.splits)
    from step [OF Suc.prems(1) False b] have "I st1" .
    from Suc.IH [OF this l] show ?thesis .
  qed
qed

text \<open>No upsert and no edge insert changes whether an account counts as crawled.\<close>

lemma truthy_is_crawled_add_user:
  "truthy (is_crawled x (add_user d h dn fc gc desc s)) = truthy (is_crawled x s)"
  by (simp add: is_crawled_def truthy_def select_user_add_user split: option.splits)

lemma truthy_is_crawled_add_follow:
  "truthy (is_crawled x (add_follow u uh v vh m s)) = truthy (is_crawled x s)"
  by (simp add: is_crawled_def)

lemma truthy_is_crawled_mark_other:
  "x \<noteq> d \<Longrightarrow> truthy (is_crawled x (mark_as_crawled d s)) = truthy (is_crawled x s)"
  by (simp add: is_crawled_def select_user_mark_as_crawled)

lemma truthy_is_crawled_p2_stores:
  "truthy (is_crawled x (p2_add_follows cur ch fs s)) = truthy (is_crawled x s)"
  "truthy (is_crawled x (p2_add_followers cur ch gs s)) = truthy (is_crawled x s)"
proof -
  show "truthy (is_crawled x (p2_add_follows cur ch fs s)) = truthy (is_crawled x s)"
    by (rule p2_add_follows_preserves
              [where P = "\<lambda>s'. truthy (is_crawled x s') = truthy (is_crawled x s)"])
       (simp_all add: truthy_is_crawled_add_user truthy_is_crawled_add_follow)
  show "truthy (is_crawled x (p2_add_followers cur ch gs s)) = truthy (is_crawled x s)"
    by (rule p2_add_followers_preserves
              [where P = "\<lambda>s'. truthy (is_crawled x s') = truthy (is_crawled x s)"])
       (simp_all add: truthy_is_crawled_add_user truthy_is_crawled_add_follow)
qed

lemma phase2_body_processed_stays:
  assumes "phase2_body c T st = Some st'" and "x \<in> processed st"
  shows "x \<in> processed st' \<and> truthy (is_crawled x (db st')) = truthy (is_crawled x (db st))"
proof (cases "to_process st")
  case Nil
  with assms show ?thesis by (simp add: phase2_body_empty)
next
  case (Cons cur queue)
  from assms(1) Cons show ?thesis
  proof (cases rule: phase2_body_cases)
    case skip
    with assms(2) show ?thesis by simp
  next
    case failed
    with assms(2) show ?thesis by simp
  next
    case (crawl prof fs gs s3 qe)
    from crawl(1) assms(2) have "x \<noteq> cur" by auto
    then show ?thesis
      using assms(2)
      by (simp add: crawl(6,8) truthy_is_crawled_mark_other truthy_is_crawled_p2_stores
            truthy_is_crawled_add_user)
  qed
qed

lemma phase2_loop_processed_stays:
  assumes "phase2_loop n c T max_users st = Some st'" and "x \<in> processed st"
  shows "x \<in> processed st' \<and> truthy (is_crawled x (db st')) = truthy (is_crawled x (db st))"
proof -
  let ?I = "\<lambda>t. x \<in> processed t \<and> truthy (is_crawled x (db t)) = truthy (is_crawled x (db st))"
  have "?I st'"
  proof (rule phase2_loop_invariant [where I = ?I, OF _ _ assms(1)])
    fix t t' assume "?I t" and "phase2_body c T t = Some t'"
    with phase2_body_processed_stays [of c T t t' x] show "?I t'" by simp
  next
    from assms(2) show "?I st" by simp
  qed
  then show ?thesis .
qed

text \<open>
  Claim C7. When the profile fetch for the dequeued account fails in Phase 2, the pass
  removes the account from the queue and adds it to the processed set, with the store, the
  counter of crawled accounts and the history unchanged. For the rest of the run the account
  stays in the processed set, it is never flagged crawled, and whenever it is dequeued
  again the pass only removes it from the queue.
\<close>

theorem phase2_profile_failure:
  assumes "to_process st = cur # queue" and "cur \<notin> processed st"
    and "\<not> truthy (is_crawled cur (db st))" and "get_profile c cur = None"
  shows "phase2_body c T st = Some (st\<lparr>to_process := queue, processed := insert cur (processed st)\<rparr>)
     \<and> (\<forall>n max_users st'.
           phase2_loop n c T max_users
             (st\<lparr>to_process := queue, processed := insert cur (processed st)\<rparr>) = Some st' \<longrightarrow>
           cur \<in> processed st' \<and> \<not> truthy (is_crawled cur (db st'))
           \<and> (\<forall>queue'. to_process st' = cur # queue' \<longrightarrow>
                 phase2_body c T st' = Some (st'\<lparr>to_process := queue'\<rparr>)))"
proof (intro conjI allI impI)
  from assms show "phase2_body c T st =
      Some (st\<lparr>to_process := queue, processed := insert cur (processed st)\<rparr>)"
    by (simp add: phase2_body_def)
next
  fix n max_users st'
  assume l: "phase2_loop n c T max_users
               (st\<lparr>to_process := queue, processed := insert cur (processed st)\<rparr>) = Some st'"
  from phase2_loop_processed_stays [OF l, of cur] assms(3)
  show p: "cur \<in> processed st'" and "\<not> truthy (is_crawled cur (db st'))"
    by simp_all
  fix queue' assume "to_process st' = cur # queue'"
  with p show "phase2_body c T st' = Some (st'\<lparr>to_process := queue'\<rparr>)"
    by (simp add: phase2_body_def)
qed

lemma p2_store_simps:
  "select_user ''X'' p2_store =
     Some \<lparr>handle = ''x.test'', display_name = None, followers_count = 0,
           follows_count = 0, description = None, crawled = False, is_mutual_core = False\<rparr>"
  "get_mutual_core_connection_count ''X'' p2_store = 2"
  "p2_initial_queue 2 p2_store = [''X'']"
  by (simp_all add: p2_store_def select_user_def get_mutual_core_connection_count_def
        core_row_def p2_initial_queue_def get_uncrawled_users_def)

text \<open>On the store with X next to the core, with a remote service that has no profile of X.\<close>

theorem phase2_profile_failure_witness:
  "to_process (phase2_init 2 p2_store) = [''X'']
   \<and> get_profile scenario_client ''X'' = None
   \<and> phase2_body scenario_client 2 (phase2_init 2 p2_store) =
       Some ((phase2_init 2 p2_store)\<lparr>to_process := [], processed := {''X''}\<rparr>)
   \<and> db ((phase2_init 2 p2_store)\<lparr>to_process := [], processed := {''X''}\<rparr>) = p2_store
   \<and> (\<exists>st'. phase2_loop 3 scenario_client 2 None
               ((phase2_init 2 p2_store)\<lparr>to_process := [], processed := {''X''}\<rparr>) = Some st'
         \<and> ''X'' \<in> processed st' \<and> \<not> truthy (is_crawled ''X'' (db st')))"
proof -
  let ?st = "phase2_init 2 p2_store"
  let ?st1 = "?st\<lparr>to_process := [], processed := insert ''X'' (processed ?st)\<rparr>"
  have h1: "to_process ?st = ''X'' # []" by (simp add: phase2_init_def p2_store_simps)
  have h2: "''X'' \<notin> processed ?st" by (simp add: phase2_init_def)
  have h3: "\<not> truthy (is_crawled ''X'' (db ?st))"
    by (simp add: phase2_init_def is_crawled_def truthy_def p2_store_simps)
  have h4: "get_profile scenario_client ''X'' = None"
    by (simp add: get_profile_def scenario_client_def)
  have l: "phase2_loop 3 scenario_client 2 None ?st1 = Some ?st1"
    by (simp add: numeral_3_eq_3 phase2_exit_def)
  from phase2_profile_failure [OF h1 h2 h3 h4, of 2] l
  have "phase2_body scenario_client 2 ?st = Some ?st1"
    and "''X'' \<in> processed ?st1 \<and> \<not> truthy (is_crawled ''X'' (db ?st1))"
    by blast+
  with h1 h4 l show ?thesis by (simp add: phase2_init_def)
qed

text \<open>The counting query computes the count of the specification.\<close>

lemma count_refines_spec:
  "get_mutual_core_connection_count d s = card (spec_core_connections d s)"
proof -
  let ?xs = "map (\<lambda>e. fst (fst e))
               (filter (\<lambda>e. snd (fst e) = d \<and> core_row s (fst (fst e))) (follows s)) @
             map (\<lambda>e. snd (fst e))
               (filter (\<lambda>e. fst (fst e) = d \<and> core_row s (snd (fst e))) (follows s))"
  have "set ?xs = spec_core_connections d s"
    by (force simp: spec_core_connections_def image_iff)
  then show ?thesis
    by (simp only: get_mutual_core_connection_count_def length_remdups_card_conv)
qed

lemma p2_consider_cases:
  "p2_consider T done s d qe = qe
   \<or> (d \<notin> done \<and> d \<notin> set (fst qe) \<and> T \<le> int (get_mutual_core_connection_count d s)
      \<and> p2_consider T done s d qe = (fst qe @ [d], snd qe @ [Enqueued d s]))"
  by (simp add: p2_consider_def)

lemma p2_scan_result:
  "\<exists>new. fst (p2_scan T done s conns qe) = fst qe @ new
     \<and> snd (p2_scan T done s conns qe) = snd qe @ map (\<lambda>d. Enqueued d s) new
     \<and> (\<forall>d \<in> set new. T \<le> int (get_mutual_core_connection_count d s) \<and> d \<notin> done)
     \<and> (distinct (fst qe) \<longrightarrow> distinct (fst qe @ new))"
proof (induction conns arbitrary: qe)
  case Nil
  show ?case by (simp add: p2_scan_def)
next
  case (Cons d conns)
  let ?qe = "p2_consider T done s d qe"
  have u: "p2_scan T done s (d # conns) qe = p2_scan T done s conns ?qe"
    by (simp add: p2_scan_def)
  from Cons.IH [of ?qe] obtain new where
    n: "fst (p2_scan T done s conns ?qe) = fst ?qe @ new"
       "snd (p2_scan T done s conns ?qe) = snd ?qe @ map (\<lambda>d. Enqueued d s) new"
       "\<forall>d \<in> set new. T \<le> int (get_mutual_core_connection_count d s) \<and> d \<notin> done"
       "distinct (fst ?qe) \<longrightarrow> distinct (fst ?qe @ new)"
    by blast
  from p2_consider_cases [of T "done" s d qe] show ?case
  proof
    assume "?qe = qe"
    with n u show ?thesis by auto
  next
    assume a: "d \<notin> done \<and> d \<notin> set (fst qe)
      \<and> T \<le> int (get_mutual_core_connection_count d s)
      \<and> ?qe = (fst qe @ [d], snd qe @ [Enqueued d s])"
    show ?thesis
    proof (intro exI [of _ "d # new"] conjI impI)
      from a n(1) u show "fst (p2_scan T done s (d # conns) qe) = fst qe @ d # new"
        by simp
      from a n(2) u show "snd (p2_scan T done s (d # conns) qe) =
          snd qe @ map (\<lambda>d. Enqueued d s) (d # new)"
        by simp
      from a n(3) show "\<forall>d \<in> set (d # new).
          T \<le> int (get_mutual_core_connection_count d s) \<and> d \<notin> done"
        by simp
      assume "distinct (fst qe)"
      with a n(4) show "distinct (fst qe @ d # new)" by simp
    qed
  qed
qed

lemma crawls_gated_snoc_enqueued:
  assumes "crawls_gated T ev"
  shows "crawls_gated T (ev @ [Enqueued d s])"
  unfolding crawls_gated_def
proof (intro allI impI)
  fix j x
  assume j: "j < length (ev @ [Enqueued d s])" and c: "(ev @ [Enqueued d s]) ! j = Crawled x"
  from c have "j \<noteq> length ev" by (auto simp: nth_append)
  with j have l: "j < length ev" by simp
  with c have "ev ! j = Crawled x" by (simp add: nth_append)
  with assms l obtain s' where "Enqueued x s' \<in> set (take j ev)"
    and "T \<le> int (get_mutual_core_connection_count x s')"
    unfolding crawls_gated_def by blast
  with l show "\<exists>s'. Enqueued x s' \<in> set (take j (ev @ [Enqueued d s]))
                  \<and> T \<le> int (get_mutual_core_connection_count x s')"
    by auto
qed

lemma crawls_gated_append_enqueued:
  assumes "crawls_gated T ev"
  shows "crawls_gated T (ev @ map (\<lambda>d. Enqueued d s) new)"
proof (induction new rule: rev_induct)
  case Nil
  from assms show ?case by simp
next
  case (snoc d new)
  from crawls_gated_snoc_enqueued [OF snoc.IH, of d s] show ?case by simp
qed

lemma crawls_gated_snoc_crawled:
  assumes "crawls_gated T ev"
    and "Enqueued y s0 \<in> set ev" and "T \<le> int (get_mutual_core_connection_count y s0)"
  shows "crawls_gated T (ev @ [Crawled y])"
  unfolding crawls_gated_def
proof (intro allI impI)
  fix j x
  assume j: "j < length (ev @ [Crawled y])" and c: "(ev @ [Crawled y]) ! j = Crawled x"
  show "\<exists>s'. Enqueued x s' \<in> set (take j (ev @ [Crawled y]))
             \<and> T \<le> int (get_mutual_core_connection_count x s')"
  proof (cases "j < length ev")
    case True
    with c have "ev ! j = Crawled x" by (simp add: nth_append)
    with assms(1) True obtain s' where "Enqueued x s' \<in> set (take j ev)"
      and "T \<le> int (get_mutual_core_connection_count x s')"
      unfolding crawls_gated_def by blast
    with True show ?thesis by auto
  next
    case False
    with j have e: "j = length ev" by simp
    with c have "x = y" by simp
    with e assms(2,3) show ?thesis by auto
  qed
qed

lemma p2_inv_init: "p2_inv T s (phase2_init T s)"
  by (auto simp: p2_inv_def phase2_init_def crawls_gated_def p2_initial_queue_def)

lemma p2_inv_step:
  assumes i: "p2_inv T s0 st" and b: "phase2_body c T st = Some st'"
  shows "p2_inv T s0 st'"
proof (cases "to_process st")
  case Nil
  with b i show ?thesis by (simp add: phase2_body_empty)
next
  case (Cons cur queue)
  from b Cons show ?thesis
  proof (cases rule: phase2_body_cases)
    case skip
    with i Cons show ?thesis by (simp add: p2_inv_def)
  next
    case failed
    with i Cons show ?thesis by (simp add: p2_inv_def)
  next
    case (crawl prof fs gs s3 qe)
    from p2_scan_result [of T "processed st" s3 "map fst (temp_connections fs gs)"
                            "(queue, events st)"] crawl(7)
    obtain new where q: "fst qe = queue @ new"
      and e: "snd qe = events st @ map (\<lambda>d. Enqueued d s3) new"
      and g: "\<forall>d \<in> set new. T \<le> int (get_mutual_core_connection_count d s3)"
      by auto
    from i Cons obtain sc where sc: "Enqueued cur sc \<in> set (events st)"
      "T \<le> int (get_mutual_core_connection_count cur sc)"
      by (auto simp: p2_inv_def)
    from i have "crawls_gated T (events st)" by (simp add: p2_inv_def)
    then have "crawls_gated T (snd qe)"
      unfolding e by (rule crawls_gated_append_enqueued)
    moreover from sc(1) have "Enqueued cur sc \<in> set (snd qe)" by (simp add: e)
    ultimately have cg: "crawls_gated T (snd qe @ [Crawled cur])"
      using sc(2) by (rule crawls_gated_snoc_crawled)
    have t: "truthy (is_crawled x s3) = truthy (is_crawled x (db st))" for x
      by (simp add: crawl(6) truthy_is_crawled_p2_stores truthy_is_crawled_add_user)
    show ?thesis
      unfolding p2_inv_def
    proof (intro conjI ballI allI impI)
      fix x assume "x \<in> set (to_process st')"
      then have "x \<in> set queue \<or> x \<in> set new" by (simp add: crawl(8) q)
      then show "\<exists>s'. Enqueued x s' \<in> set (events st')
                    \<and> T \<le> int (get_mutual_core_connection_count x s')"
      proof
        assume "x \<in> set queue"
        with i Cons obtain s' where "Enqueued x s' \<in> set (events st)"
          "T \<le> int (get_mutual_core_connection_count x s')"
          by (auto simp: p2_inv_def)
        then show ?thesis by (auto simp: crawl(8) e)
      next
        assume "x \<in> set new"
        with g have "Enqueued x s3 \<in> set (events st')"
          "T \<le> int (get_mutual_core_connection_count x s3)"
          by (auto simp: crawl(8) e)
        then show ?thesis by blast
      qed
    next
      from cg show "crawls_gated T (events st')" by (simp add: crawl(8))
    next
      fix x assume a: "truthy (is_crawled x (db st')) \<and> \<not> truthy (is_crawled x s0)"
      show "Crawled x \<in> set (events st')"
      proof (cases "x = cur")
        case True
        then show ?thesis by (simp add: crawl(8))
      next
        case False
        with a have "truthy (is_crawled x (db st))"
          by (simp add: crawl(8) truthy_is_crawled_mark_other t)
        with a i have "Crawled x \<in> set (events st)" by (simp add: p2_inv_def)
        then show ?thesis by (simp add: crawl(8) e)
      qed
    qed
  qed
qed

text \<open>
  Claim C1. In a Phase 2 run started on the store \<open>s\<close> with threshold \<open>T\<close>: every account
  that the run flags crawled has a crawl in the history; every crawl in the history comes
  after an append of that account to the frontier, decided on a store in which its
  core-connection count was at least \<open>T\<close>; and that count is the number of distinct
  accounts flagged core member that are linked to the account by a follow edge in either
  direction.
\<close>

theorem phase2_crawls_only_gated:
  assumes "phase2_expand_graph n c s T max_users = Some st"
  shows "(\<forall>x. truthy (is_crawled x (db st)) \<and> \<not> truthy (is_crawled x s) \<longrightarrow>
            Crawled x \<in> set (events st))
     \<and> (\<forall>j<length (events st). \<forall>x. events st ! j = Crawled x \<longrightarrow>
           (\<exists>s'. Enqueued x s' \<in> set (take j (events st))
                 \<and> T \<le> int (get_mutual_core_connection_count x s')
                 \<and> get_mutual_core_connection_count x s' = card (spec_core_connections x s')))"
proof -
  have "p2_inv T s st"
    by (rule phase2_loop_invariant
               [where I = "p2_inv T s", OF _ p2_inv_init assms [unfolded phase2_expand_graph_def]])
       (rule p2_inv_step)
  then show ?thesis
    by (simp add: p2_inv_def crawls_gated_def count_refines_spec)
qed

lemma p2_run:
  "phase2_expand_graph 2 p2_client p2_store 2 None =
     Some \<lparr>to_process = [], processed = {''X''}, db = p2_store_after,
           events = [Enqueued ''X'' p2_store, Crawled ''X''], crawled_count = 1\<rparr>"
  by code_simp

text \<open>
  The run on the store with X next to the core: X is flagged crawled, and its crawl comes
  after its append, decided on the initial store where its count is 2.
\<close>

theorem phase2_crawls_only_gated_witness:
  "phase2_expand_graph 2 p2_client p2_store 2 None =
     Some \<lparr>to_process = [], processed = {''X''}, db = p2_store_after,
           events = [Enqueued ''X'' p2_store, Crawled ''X''], crawled_count = 1\<rparr>
   \<and> truthy (is_crawled ''X'' p2_store_after) \<and> \<not> truthy (is_crawled ''X'' p2_store)
   \<and> (\<exists>s'. Enqueued ''X'' s' \<in> set (take 1 [Enqueued ''X'' p2_store, Crawled ''X''])
          \<and> 2 \<le> int (get_mutual_core_connection_count ''X'' s')
          \<and> get_mutual_core_connection_count ''X'' s' = card (spec_core_connections ''X'' s'))"
proof -
  have c: "truthy (is_crawled ''X'' p2_store_after)" "\<not> truthy (is_crawled ''X'' p2_store)"
    by (simp_all add: truthy_def is_crawled_def select_user_def p2_store_after_def p2_store_def)
  from phase2_crawls_only_gated [OF p2_run]
  have "\<forall>j<2. \<forall>x. [Enqueued ''X'' p2_store, Crawled ''X''] ! j = Crawled x \<longrightarrow>
           (\<exists>s'. Enqueued x s' \<in> set (take j [Enqueued ''X'' p2_store, Crawled ''X''])
                 \<and> 2 \<le> int (get_mutual_core_connection_count x s')
                 \<and> get_mutual_core_connection_count x s' = card (spec_core_connections x s'))"
    by simp
  then have "[Enqueued ''X'' p2_store, Crawled ''X''] ! 1 = Crawled ''X'' \<longrightarrow>
           (\<exists>s'. Enqueued ''X'' s' \<in> set (take 1 [Enqueued ''X'' p2_store, Crawled ''X''])
                 \<and> 2 \<le> int (get_mutual_core_connection_count ''X'' s')
                 \<and> get_mutual_core_connection_count ''X'' s' = card (spec_core_connections ''X'' s'))"
    by (metis one_less_numeral_iff semiring_norm(76))
  with c p2_run show ?thesis by simp
qed

subsection \<open>The queue of Phase 2 holds no identifier twice\<close>

lemma p2_initial_queue_distinct:
  assumes "distinct (map fst (users s))"
  shows "distinct (p2_initial_queue T s)"
proof -
  have "map fst (get_uncrawled_users s) = map fst (filter (\<lambda>(k, r). \<not> crawled r) (users s))"
    by (simp add: get_uncrawled_users_def split_def comp_def)
  with assms show ?thesis
    by (simp add: p2_initial_queue_def distinct_map_filter)
qed

lemma phase2_body_distinct:
  assumes d: "distinct (to_process st)" and b: "phase2_body c T st = Some st'"
  shows "distinct (to_process st')"
proof (cases "to_process st")
  case Nil
  with b d show ?thesis by (simp add: phase2_body_empty)
next
  case (Cons cur queue)
  from b Cons show ?thesis
  proof (cases rule: phase2_body_cases)
    case skip
    with d Cons show ?thesis by simp
  next
    case failed
    with d Cons show ?thesis by simp
  next
    case (crawl prof fs gs s3 qe)
    from d Cons have "distinct queue" by simp
    with p2_scan_result [of T "processed st" s3 "map fst (temp_connections fs gs)"
                            "(queue, events st)"] crawl(7)
    have "distinct (fst qe)" by auto
    then show ?thesis by (simp add: crawl(8))
  qed
qed

text \<open>
  Claim C9, as the code has it. Within a Phase 2 run on a store with one users row per
  account, the frontier queue never holds an identifier twice: it starts as a list of
  distinct uncrawled accounts, and an identifier is appended only after the check against
  the processed set and the current queue.
\<close>

theorem phase2_queue_distinct:
  assumes "distinct (map fst (users s))"
    and "phase2_expand_graph n c s T max_users = Some st"
  shows "distinct (to_process st)"
proof -
  have "distinct (to_process (phase2_init T s))"
    by (simp add: phase2_init_def p2_initial_queue_distinct [OF assms(1)])
  from phase2_loop_invariant
         [where I = "\<lambda>t. distinct (to_process t)",
          OF _ this assms(2) [unfolded phase2_expand_graph_def]]
  show ?thesis by (simp add: phase2_body_distinct)
qed

lemma p2_run_all_in:
  "map_option to_process (phase2_expand_graph 1 p2_client p2_store 0 None) = Some [''Y'']"
  by code_simp

text \<open>With threshold 0, crawling X appends its new connection Y, once.\<close>

theorem phase2_queue_distinct_witness:
  "distinct (map fst (users p2_store))
   \<and> (\<exists>st. phase2_expand_graph 1 p2_client p2_store 0 None = Some st
         \<and> to_process st = [''Y''] \<and> distinct (to_process st))"
proof -
  have d: "distinct (map fst (users p2_store))" by (simp add: p2_store_def)
  from p2_run_all_in obtain st where
    r: "phase2_expand_graph 1 p2_client p2_store 0 None = Some st"
    and q: "to_process st = [''Y'']"
    by (cases "phase2_expand_graph 1 p2_client p2_store 0 None") auto
  from phase2_queue_distinct [OF d r] d r q show ?thesis by simp
qed

subsection \<open>The crawl budget\<close>

lemma finite_crawled_dids: "finite (crawled_dids s)"
  by (simp add: crawled_dids_def)

lemma users_add_user:
  "\<exists>row. users (add_user d h dn fc gc desc s) = filter (\<lambda>r. fst r \<noteq> d) (users s) @ [(d, row)]
     \<and> crawled row = (case select_user d s of None \<Rightarrow> False | Some ex \<Rightarrow> crawled ex)"
  by (simp add: add_user_def Let_def split: option.splits)

lemma crawled_dids_add_user: "crawled_dids (add_user d h dn fc gc desc s) \<subseteq> crawled_dids s"
proof
  fix x assume a: "x \<in> crawled_dids (add_user d h dn fc gc desc s)"
  from users_add_user [of d h dn fc gc desc s] obtain row where
    u: "users (add_user d h dn fc gc desc s) = filter (\<lambda>r. fst r \<noteq> d) (users s) @ [(d, row)]"
    and c: "crawled row = (case select_user d s of None \<Rightarrow> False | Some ex \<Rightarrow> crawled ex)"
    by blast
  from a have "x \<in> fst ` {kr \<in> set (users (add_user d h dn fc gc desc s)). crawled (snd kr)}"
    by (simp add: crawled_dids_def)
  then obtain r where m: "(x, r) \<in> set (users (add_user d h dn fc gc desc s))"
    and "crawled r"
    by auto
  from m have "(x, r) \<in> set (users s) \<or> (x = d \<and> r = row)"
    unfolding u by auto
  with \<open>crawled r\<close> have "crawled r"
    and "(x, r) \<in> set (users s) \<or> (x = d \<and> r = row)"
    by simp_all
  then show "x \<in> crawled_dids s"
  proof (elim disjE conjE)
    assume "crawled r" "(x, r) \<in> set (users s)"
    then show ?thesis by (force simp: crawled_dids_def)
  next
    assume "crawled r" "x = d" "r = row"
    with c obtain ex where "select_user d s = Some ex" "crawled ex"
      by (auto split: option.splits)
    then have "(d, ex) \<in> set (users s)" "crawled ex"
      by (simp_all add: select_user_def map_of_SomeD)
    with \<open>x = d\<close> show ?thesis by (force simp: crawled_dids_def)
  qed
qed

lemma crawled_dids_add_follow: "crawled_dids (add_follow u uh v vh m s) = crawled_dids s"
  by (simp add: crawled_dids_def)

lemma crawled_dids_mark_as_crawled:
  "crawled_dids (mark_as_crawled d s) \<subseteq> insert d (crawled_dids s)"
  by (force simp: crawled_dids_def mark_as_crawled_def split: if_splits)

lemma crawled_dids_mark_as_mutual_core:
  "crawled_dids (mark_as_mutual_core d s) \<subseteq> crawled_dids s"
  by (force simp: crawled_dids_def mark_as_mutual_core_def split: if_splits)

lemma crawled_dids_stores:
  assumes "crawled_dids s \<subseteq> C"
  shows "crawled_dids (p1_add_follows cur ch ms fs s) \<subseteq> C"
    and "crawled_dids (p1_add_followers cur ch fd gs s) \<subseteq> C"
    and "crawled_dids (p2_add_follows cur ch fs s) \<subseteq> C"
    and "crawled_dids (p2_add_followers cur ch gs s) \<subseteq> C"
proof -
  have u: "crawled_dids t \<subseteq> C \<Longrightarrow> crawled_dids (add_user d h dn 0 0 None t) \<subseteq> C"
    for d h dn t
    using crawled_dids_add_user [of d h dn 0 0 None t] by blast
  have f: "crawled_dids t \<subseteq> C \<Longrightarrow> crawled_dids (add_follow a ah b bh m t) \<subseteq> C"
    for a ah b bh m t
    by (simp add: crawled_dids_add_follow)
  show "crawled_dids (p1_add_follows cur ch ms fs s) \<subseteq> C"
    by (rule p1_add_follows_preserves [where P = "\<lambda>t. crawled_dids t \<subseteq> C"])
       (simp_all add: u f assms)
  show "crawled_dids (p1_add_followers cur ch fd gs s) \<subseteq> C"
    by (rule p1_add_followers_preserves [where P = "\<lambda>t. crawled_dids t \<subseteq> C"])
       (simp_all add: u f assms)
  show "crawled_dids (p2_add_follows cur ch fs s) \<subseteq> C"
    by (rule p2_add_follows_preserves [where P = "\<lambda>t. crawled_dids t \<subseteq> C"])
       (simp_all add: u f assms)
  show "crawled_dids (p2_add_followers cur ch gs s) \<subseteq> C"
    by (rule p2_add_followers_preserves [where P = "\<lambda>t. crawled_dids t \<subseteq> C"])
       (simp_all add: u f assms)
qed

text \<open>A pass that crawls flags at most the current account.\<close>

lemma phase1_body_crawled_dids:
  assumes "phase1_body c st = Some st'" and "to_process st = cur # queue"
  shows "crawled_dids (db st') \<subseteq> insert cur (crawled_dids (db st))"
  using assms
proof (cases rule: phase1_body_cases)
  case (crawl prof res s3 new)
  have "crawled_dids s3 \<subseteq> crawled_dids (db st)"
    unfolding crawl(5)
    by (intro crawled_dids_stores) (rule crawled_dids_add_user)
  with crawled_dids_mark_as_mutual_core [of cur "mark_as_crawled cur s3"]
    crawled_dids_mark_as_crawled [of cur s3]
  show ?thesis by (auto simp: crawl(7))
qed auto

lemma phase2_body_crawled_dids:
  assumes "phase2_body c T st = Some st'" and "to_process st = cur # queue"
  shows "crawled_dids (db st') \<subseteq> insert cur (crawled_dids (db st))"
  using assms
proof (cases rule: phase2_body_cases)
  case (crawl prof fs gs s3 qe)
  have "crawled_dids s3 \<subseteq> crawled_dids (db st)"
    unfolding crawl(6)
    by (intro crawled_dids_stores) (rule crawled_dids_add_user)
  with crawled_dids_mark_as_crawled [of cur s3]
  show ?thesis by (auto simp: crawl(8))
qed auto

lemma limit_not_reached:
  "1 \<le> N \<Longrightarrow> \<not> limit_reached (Some N) k \<Longrightarrow> int k < N"
  by (simp add: limit_reached_def)

lemma phase1_budget_step:
  assumes n: "1 \<le> N"
    and i: "finite (processed st) \<and> crawled_dids (db st) - C \<subseteq> processed st
            \<and> int (card (processed st)) \<le> N"
    and e: "\<not> phase1_exit (Some N) st" and b: "phase1_body c st = Some st'"
  shows "finite (processed st') \<and> crawled_dids (db st') - C \<subseteq> processed st'
            \<and> int (card (processed st')) \<le> N"
proof -
  from e obtain cur queue where q: "to_process st = cur # queue"
    by (cases "to_process st") (auto simp: phase1_exit_def)
  from e n have l: "int (card (processed st)) < N"
    by (simp add: phase1_exit_def limit_not_reached)
  note s = phase1_body_crawled_dids [OF b q]
  from b q show ?thesis
  proof (cases rule: phase1_body_cases)
    case skip
    with i show ?thesis by simp
  next
    case failed
    with i show ?thesis by simp
  next
    case (crawl prof res s3 new)
    from i crawl(1) l have "int (card (insert cur (processed st))) \<le> N" by simp
    moreover from s i have "crawled_dids (db st') - C \<subseteq> insert cur (processed st)" by auto
    ultimately show ?thesis using i by (simp add: crawl(7))
  qed
qed

lemma phase2_budget_step:
  assumes n: "1 \<le> N"
    and i: "card (crawled_dids (db st) - C) \<le> crawled_count st \<and> int (crawled_count st) \<le> N"
    and e: "\<not> phase2_exit (Some N) st" and b: "phase2_body c T st = Some st'"
  shows "card (crawled_dids (db st') - C) \<le> crawled_count st'
           \<and> int (crawled_count st') \<le> N"
proof -
  from e obtain cur queue where q: "to_process st = cur # queue"
    by (cases "to_process st") (auto simp: phase2_exit_def)
  from e n have l: "int (crawled_count st) < N"
    by (simp add: phase2_exit_def limit_not_reached)
  note s = phase2_body_crawled_dids [OF b q]
  from b q show ?thesis
  proof (cases rule: phase2_body_cases)
    case skip
    with i show ?thesis by simp
  next
    case failed
    with i show ?thesis by simp
  next
    case (crawl prof fs gs s3 qe)
    from s have "crawled_dids (db st') - C \<subseteq> insert cur (crawled_dids (db st) - C)" by auto
    then have "card (crawled_dids (db st') - C) \<le> card (insert cur (crawled_dids (db st) - C))"
      by (rule card_mono [rotated]) (simp add: finite_crawled_dids)
    also have "\<dots> \<le> Suc (card (crawled_dids (db st) - C))"
      by (simp add: card_insert_if finite_crawled_dids)
    finally have "card (crawled_dids (db st') - C) \<le> Suc (crawled_count st)"
      using i by simp
    with l show ?thesis by (simp add: crawl(8))
  qed
qed

text \<open>
  Claim C8, as the code has it. For a budget \<open>max_users = N\<close> with \<open>N\<close> at least 1, the
  number of accounts that are flagged crawled at any point of a Phase 1 run, or of a
  Phase 2 run, and were not flagged in the store the run started on, is at most \<open>N\<close>.
\<close>

theorem crawl_budget:
  assumes "1 \<le> N"
  shows "(phase1_mutuals_graph n c s seed (Some N) = Some st1 \<longrightarrow>
            int (card (crawled_dids (db st1) - crawled_dids s)) \<le> N)
     \<and> (phase2_expand_graph n' c' s' T (Some N) = Some st2 \<longrightarrow>
            int (card (crawled_dids (db st2) - crawled_dids s')) \<le> N)"
proof (intro conjI impI)
  assume r: "phase1_mutuals_graph n c s seed (Some N) = Some st1"
  let ?I = "\<lambda>t. finite (processed t) \<and> crawled_dids (db t) - crawled_dids s \<subseteq> processed t
                 \<and> int (card (processed t)) \<le> N"
  from assms have "?I (phase1_init s seed)" by (simp add: phase1_init_def)
  from phase1_loop_invariant [where I = ?I, OF _ this r [unfolded phase1_mutuals_graph_def]]
    phase1_budget_step [OF assms]
  have i: "?I st1" by blast
  then have "card (crawled_dids (db st1) - crawled_dids s) \<le> card (processed st1)"
    by (simp add: card_mono)
  with i show "int (card (crawled_dids (db st1) - crawled_dids s)) \<le> N" by simp
next
  assume r: "phase2_expand_graph n' c' s' T (Some N) = Some st2"
  let ?I = "\<lambda>t. card (crawled_dids (db t) - crawled_dids s') \<le> crawled_count t
                 \<and> int (crawled_count t) \<le> N"
  from assms have "?I (phase2_init T s')" by (simp add: phase2_init_def)
  from phase2_loop_invariant [where I = ?I, OF _ this r [unfolded phase2_expand_graph_def]]
    phase2_budget_step [OF assms]
  have "?I st2" by blast
  then show "int (card (crawled_dids (db st2) - crawled_dids s')) \<le> N" by simp
qed

lemma budget_runs:
  "map_option to_process (phase1_mutuals_graph 2 scenario_client empty_store ''S'' (Some 1))
     = Some [''A'']"
  "map_option to_process (phase2_expand_graph 2 p2_client p2_store 0 (Some 1)) = Some [''Y'']"
  by code_simp+

text \<open>
  With budget 1 both phases stop after one crawl, with an account still in the queue.
\<close>

theorem crawl_budget_witness:
  "(1::int) \<le> 1
   \<and> (\<exists>st1. phase1_mutuals_graph 2 scenario_client empty_store ''S'' (Some 1) = Some st1
          \<and> to_process st1 = [''A'']
          \<and> int (card (crawled_dids (db st1) - crawled_dids empty_store)) \<le> 1)
   \<and> (\<exists>st2. phase2_expand_graph 2 p2_client p2_store 0 (Some 1) = Some st2
          \<and> to_process st2 = [''Y'']
          \<and> int (card (crawled_dids (db st2) - crawled_dids p2_store)) \<le> 1)"
proof -
  have n: "(1::int) \<le> 1" by simp
  from budget_runs(1) obtain st1 where
    r1: "phase1_mutuals_graph 2 scenario_client empty_store ''S'' (Some 1) = Some st1"
    and q1: "to_process st1 = [''A'']"
    by (cases "phase1_mutuals_graph 2 scenario_client empty_store ''S'' (Some 1)") auto
  from budget_runs(2) obtain st2 where
    r2: "phase2_expand_graph 2 p2_client p2_store 0 (Some 1) = Some st2"
    and q2: "to_process st2 = [''Y'']"
    by (cases "phase2_expand_graph 2 p2_client p2_store 0 (Some 1)") auto
  from crawl_budget [OF n, of 2 scenario_client empty_store "''S''" st1
                       2 p2_client p2_store 0 st2] r1 r2 q1 q2
  show ?thesis by simp
qed

text \<open>
  Claim C8 as stated fails for the budget 0: Python takes \<open>max_users = 0\<close> as false, so the
  limit is never tested, and the Phase 1 run crawls the seed: one account is flagged
  crawled where the budget allows none.
\<close>

theorem budget_zero_counterexample:
  "map_option (card \<circ> crawled_dids \<circ> db)
     (phase1_mutuals_graph 1 scenario_client empty_store ''S'' (Some 0)) = Some 1
   \<and> crawled_dids empty_store = {}"
  by code_simp

end
